theory Spec2Isabelle
  imports Complex_Main "HOL-Library.Word" "HOL-Library.Multiset"
begin

unbundle bit_operations_syntax

section \<open>Data model\<close>

text \<open>
  A shallow embedding of the outlier detection engine (\<^verbatim>\<open>main.go\<close>, \<^verbatim>\<open>lof.go\<close> and the
  neighbour index of the Knn file). Go's run-time panics are values of type \<open>panic\<close>: a
  function that can panic returns \<open>panic + 'a\<close>, with \<open>Inl\<close> the panic.

  A \<^verbatim>\<open>*Employee\<close> is modelled by the position of the record in \<^verbatim>\<open>db.Employees\<close>: the
  records are allocated once, one per row, so the pointer and the position determine each
  other. Positions, lengths and loop counters are natural numbers; the fields whose
  wrap-around can be observed (\<^verbatim>\<open>Salary\<close>, \<^verbatim>\<open>Distance\<close>, the mask bytes and the mask's
  \<^verbatim>\<open>Count\<close>) are machine words.
\<close>

datatype panic = IndexOutOfRange | SliceBoundsOutOfRange

type_synonym Distance = "32 word"

record Employee =
  Id :: "64 word"
  Employer :: nat
  JobTitle :: nat
  Year :: nat
  Salary :: "32 word"

record Database =
  Employers :: "string list"
  JobTitles :: "string list"
  Years :: "16 word list"
  Employees :: "Employee list"

record Context =
  EmployersIncluded :: "bool list"
  JobTitlesIncluded :: "bool list"
  YearsIncluded :: "bool list"

record InclusionMask =
  Mask :: "8 word list"
  Count :: "64 word"

text \<open>\<^verbatim>\<open>func (e *Employee) Distance(other *Employee) Distance\<close>\<close>

definition Distance :: "Employee \<Rightarrow> Employee \<Rightarrow> Distance" where
  "Distance e other =
     (if Salary e < Salary other then Salary other - Salary e else Salary e - Salary other)"

text \<open>Reading \<^verbatim>\<open>xs[i]\<close>: Go panics when the index is out of range.\<close>

definition index :: "'a list \<Rightarrow> nat \<Rightarrow> panic + 'a" where
  "index xs i = (if i < length xs then Inr (xs ! i) else Inl IndexOutOfRange)"

section \<open>Contexts and the inclusion mask\<close>

definition NewContext :: "Database \<Rightarrow> Context" where
  "NewContext db =
     \<lparr>EmployersIncluded = replicate (length (Employers db)) False,
      JobTitlesIncluded = replicate (length (JobTitles db)) False,
      YearsIncluded = replicate (length (Years db)) False\<rparr>"

text \<open>
  \<^verbatim>\<open>db.Filter\<close> sends one boolean per record on an unbuffered channel and closes it;
  \<^verbatim>\<open>Fill\<close> is its only reader. The channel is modelled by the list of the values sent.
  The conjunction short-circuits, so a later index is only read when the earlier
  conditions hold. A panic of the sending goroutine ends the program.
\<close>

definition valid :: "bool list \<Rightarrow> bool list \<Rightarrow> bool list \<Rightarrow> Employee \<Rightarrow> panic + bool" where
  "valid validEmployers validJobTitles validYears employee =
     (case index validEmployers (Employer employee) of
        Inl e \<Rightarrow> Inl e
      | Inr False \<Rightarrow> Inr False
      | Inr True \<Rightarrow>
          (case index validJobTitles (JobTitle employee) of
             Inl e \<Rightarrow> Inl e
           | Inr False \<Rightarrow> Inr False
           | Inr True \<Rightarrow> index validYears (Year employee)))"

fun Filter_loop :: "bool list \<Rightarrow> bool list \<Rightarrow> bool list \<Rightarrow> Employee list \<Rightarrow> panic + bool list" where
  "Filter_loop ve vj vy [] = Inr []"
| "Filter_loop ve vj vy (employee # rest) =
     (case valid ve vj vy employee of
        Inl e \<Rightarrow> Inl e
      | Inr v \<Rightarrow>
          (case Filter_loop ve vj vy rest of
             Inl e \<Rightarrow> Inl e
           | Inr vs \<Rightarrow> Inr (v # vs)))"

definition Filter :: "Database \<Rightarrow> bool list \<Rightarrow> bool list \<Rightarrow> bool list \<Rightarrow> panic + bool list" where
  "Filter db validEmployers validJobTitles validYears =
     Filter_loop validEmployers validJobTitles validYears (Employees db)"

definition NewInclusionMask :: "Database \<Rightarrow> InclusionMask" where
  "NewInclusionMask db =
     \<lparr>Mask = replicate ((length (Employees db) + 7) div 8) 0, Count = 0\<rparr>"

text \<open>
  \<^verbatim>\<open>func (im *InclusionMask) Fill(inclusion <-chan bool)\<close>: the loop over the channel, with
  the loop variables \<^verbatim>\<open>b\<close> and \<^verbatim>\<open>bit\<close> (here \<open>bt\<close>). The byte is cleared when its first bit is reached;
  \<^verbatim>\<open>Count\<close> is incremented and never cleared.
\<close>

fun Fill_loop :: "bool list \<Rightarrow> nat \<Rightarrow> nat \<Rightarrow> InclusionMask \<Rightarrow> panic + InclusionMask" where
  "Fill_loop [] b bt im = Inr im"
| "Fill_loop (incl # rest) b bt im =
     (if length (Mask im) \<le> b then Inl IndexOutOfRange
      else
        let im1 = (if bt = 0 then im\<lparr>Mask := (Mask im)[b := 0]\<rparr> else im);
            im2 = (if incl
                   then im1\<lparr>Mask := (Mask im1)[b := (Mask im1 ! b) OR push_bit (7 - bt) 1],
                            Count := Count im1 + 1\<rparr>
                   else im1)
        in if bt + 1 > 7 then Fill_loop rest (b + 1) 0 im2
           else Fill_loop rest b (bt + 1) im2)"

definition Fill :: "InclusionMask \<Rightarrow> bool list \<Rightarrow> panic + InclusionMask" where
  "Fill im inclusion = Fill_loop inclusion 0 0 im"

text \<open>\<^verbatim>\<open>func (im *InclusionMask) IsIncluded(i uint64) bool\<close>\<close>

definition IsIncluded :: "InclusionMask \<Rightarrow> nat \<Rightarrow> panic + bool" where
  "IsIncluded im i =
     (case index (Mask im) (i div 8) of
        Inl e \<Rightarrow> Inl e
      | Inr w \<Rightarrow> Inr (w AND push_bit (7 - i mod 8) 1 \<noteq> 0))"

text \<open>Record \<open>r\<close> is set in the mask: the bit \<^verbatim>\<open>IsIncluded\<close> reads.\<close>

definition member_bit :: "InclusionMask \<Rightarrow> nat \<Rightarrow> bool" where
  "member_bit im r = bit (Mask im ! (r div 8)) (7 - r mod 8)"

text \<open>One turn of the loop of \<^verbatim>\<open>Fill\<close>.\<close>

definition Fill_step :: "nat \<Rightarrow> nat \<Rightarrow> bool \<Rightarrow> InclusionMask \<Rightarrow> InclusionMask" where
  "Fill_step b bt incl im =
     (let im1 = (if bt = 0 then im\<lparr>Mask := (Mask im)[b := 0]\<rparr> else im)
      in if incl
         then im1\<lparr>Mask := (Mask im1)[b := (Mask im1 ! b) OR push_bit (7 - bt) 1],
                  Count := Count im1 + 1\<rparr>
         else im1)"

section \<open>The neighbour index\<close>

text \<open>Sequencing of steps that can panic: the first panic ends the computation.\<close>

fun andThen :: "panic + 'a \<Rightarrow> ('a \<Rightarrow> panic + 'b) \<Rightarrow> panic + 'b" where
  "andThen (Inl e) f = Inl e"
| "andThen (Inr x) f = f x"

fun collect :: "(panic + 'a) list \<Rightarrow> panic + 'a list" where
  "collect [] = Inr []"
| "collect (r # rs) = andThen r (\<lambda>x. andThen (collect rs) (\<lambda>xs. Inr (x # xs)))"

record Knn =
  Db :: Database
  NearestNeighbors :: "nat list list"

text \<open>The anonymous \<^verbatim>\<open>struct { target uint64; distance Distance }\<close> of \<^verbatim>\<open>precomputeDistances\<close>.\<close>

record neighbor =
  target :: nat
  distance :: Distance

text \<open>
  \<^verbatim>\<open>sort.Slice\<close> belongs to Go's standard library, not to this repository, and its
  documentation does not promise a stable sort. It is a parameter \<open>srt\<close> of the model: a
  function from the comparison and the slice to the sorted slice. \<open>sort_Slice_ok\<close> is what
  Go promises of it for the comparison used here: the result is a rearrangement of the
  slice, in an order the comparison agrees with.
\<close>

type_synonym sorter = "(neighbor \<Rightarrow> neighbor \<Rightarrow> bool) \<Rightarrow> neighbor list \<Rightarrow> neighbor list"

definition less_distance :: "neighbor \<Rightarrow> neighbor \<Rightarrow> bool" where
  "less_distance a b = (distance a < distance b)"

definition sort_Slice_ok :: "sorter \<Rightarrow> bool" where
  "sort_Slice_ok srt =
     (\<forall>xs. mset (srt less_distance xs) = mset xs
         \<and> sorted_wrt (\<lambda>a b. \<not> less_distance b a) (srt less_distance xs))"

text \<open>The loop \<^verbatim>\<open>for j := uint64(0); j < n; j++\<close> that fills \<^verbatim>\<open>distances\<close> for record \<open>i\<close>.\<close>

definition distances :: "Database \<Rightarrow> nat \<Rightarrow> neighbor list" where
  "distances db i =
     map (\<lambda>j. \<lparr>target = j,
                distance = (if i = j then 0 else Distance (Employees db ! i) (Employees db ! j))\<rparr>)
       [0..<length (Employees db)]"

text \<open>
  The loop that copies the sorted targets, but for \<open>i\<close> itself, into the row
  \<^verbatim>\<open>knn.NearestNeighbors[i]\<close>, which has \<open>n - 1\<close> places.
\<close>

fun copy_neighbors :: "nat \<Rightarrow> neighbor list \<Rightarrow> nat \<Rightarrow> nat list \<Rightarrow> panic + nat list" where
  "copy_neighbors i [] next row = Inr row"
| "copy_neighbors i (nb # rest) next row =
     (if target nb = i then copy_neighbors i rest next row
      else if next < length row then copy_neighbors i rest (next + 1) (row[next := target nb])
      else Inl IndexOutOfRange)"

text \<open>
  \<^verbatim>\<open>precomputeDistances\<close>: the rows are computed by concurrent workers, each row by one
  worker alone and from the immutable database only, so the index is the list of the rows.
\<close>

definition neighbor_row :: "sorter \<Rightarrow> Database \<Rightarrow> nat \<Rightarrow> panic + nat list" where
  "neighbor_row srt db i =
     copy_neighbors i (srt less_distance (distances db i)) 0
       (replicate (length (Employees db) - 1) 0)"

definition precomputeDistances :: "sorter \<Rightarrow> Database \<Rightarrow> panic + Knn" where
  "precomputeDistances srt db =
     andThen (collect (map (neighbor_row srt db) [0..<length (Employees db)]))
       (\<lambda>rows. Inr \<lparr>Db = db, NearestNeighbors = rows\<rparr>)"

definition NewKnn :: "sorter \<Rightarrow> Database \<Rightarrow> panic + Knn" where
  "NewKnn srt db = precomputeDistances srt db"

text \<open>
  \<^verbatim>\<open>func (knn *Knn) KNearest(im *InclusionMask, i uint64, out []uint64) uint64\<close>. The
  slice \<^verbatim>\<open>out\<close> shares its array with the caller, so the model returns the written
  slice beside the count. The bound is tested after the write.
\<close>

fun KNearest_loop :: "InclusionMask \<Rightarrow> nat list \<Rightarrow> nat \<Rightarrow> nat list \<Rightarrow> panic + nat \<times> nat list" where
  "KNearest_loop im [] validNeighbors out = Inr (validNeighbors, out)"
| "KNearest_loop im (nb # rest) validNeighbors out =
     andThen (IsIncluded im nb) (\<lambda>included.
       if \<not> included then KNearest_loop im rest validNeighbors out
       else if length out \<le> validNeighbors then Inl IndexOutOfRange
       else if validNeighbors + 1 \<ge> length out
         then Inr (validNeighbors + 1, out[validNeighbors := nb])
         else KNearest_loop im rest (validNeighbors + 1) (out[validNeighbors := nb]))"

definition KNearest :: "Knn \<Rightarrow> InclusionMask \<Rightarrow> nat \<Rightarrow> nat list \<Rightarrow> panic + nat \<times> nat list" where
  "KNearest knn im i out =
     andThen (index (NearestNeighbors knn) i) (\<lambda>row. KNearest_loop im row 0 out)"

section \<open>The outlier scorer\<close>

text \<open>
  The scores are \<^verbatim>\<open>float64\<close> values. Their arithmetic is a parameter of the model: a
  record of the operations the scorer uses on a type \<open>'f\<close> of floating-point values. What
  is proved for every such record holds of IEEE 754 arithmetic in particular. Dividing
  floating-point numbers by zero does not panic in Go, so no operation can fail.
\<close>

record 'f float64 =
  fzero :: 'f
  from_uint :: "nat \<Rightarrow> 'f"
  fadd :: "'f \<Rightarrow> 'f \<Rightarrow> 'f"
  fmul :: "'f \<Rightarrow> 'f \<Rightarrow> 'f"
  fdiv :: "'f \<Rightarrow> 'f \<Rightarrow> 'f"
  fge :: "'f \<Rightarrow> 'f \<Rightarrow> bool"

record 'f Lof =
  Lof_Db :: Database
  Neighbors :: Knn
  K :: nat
  Threshold :: 'f

text \<open>
  \<^verbatim>\<open>LofCache\<close>. A slice \<^verbatim>\<open>Neighborhoods[i]\<close> is modelled by the list of its elements, so
  that its length is the slice's \<^verbatim>\<open>len\<close>. The only reslicing, in \<open>computeCoreDistances\<close>,
  never asks for more than that length.
\<close>

record 'f LofCache =
  Neighborhoods :: "nat list list"
  CoreDistance :: "Distance list"
  LocalReachabilityDensities :: "'f list"

definition NewLof :: "Database \<Rightarrow> Knn \<Rightarrow> nat \<Rightarrow> 'f \<Rightarrow> 'f Lof" where
  "NewLof db neighbors k threshold =
     \<lparr>Lof_Db = db, Neighbors = neighbors, K = k, Threshold = threshold\<rparr>"

definition NewThreadCache :: "'f float64 \<Rightarrow> 'f Lof \<Rightarrow> 'f LofCache" where
  "NewThreadCache F lof =
     \<lparr>Neighborhoods = replicate (length (Employees (Lof_Db lof))) (replicate (K lof) 0),
      CoreDistance = replicate (length (Employees (Lof_Db lof))) 0,
      LocalReachabilityDensities = replicate (length (Employees (Lof_Db lof))) (fzero F)\<rparr>"

text \<open>
  The body of the loop of \<^verbatim>\<open>computeCoreDistances\<close> for an included record \<open>i\<close>. The
  index \<^verbatim>\<open>numNeighbors-1\<close> is computed in \<^verbatim>\<open>uint64\<close>: for \<open>numNeighbors = 0\<close> it wraps
  around to \<open>2\<^sup>6\<^sup>4 - 1\<close>, which no slice has.
\<close>

definition coreDistance_step :: "'f Lof \<Rightarrow> InclusionMask \<Rightarrow> nat \<Rightarrow> 'f LofCache \<Rightarrow> panic + 'f LofCache" where
  "coreDistance_step lof im i cache =
     andThen (index (Neighborhoods cache) i) (\<lambda>out.
     andThen (KNearest (Neighbors lof) im i out) (\<lambda>(numNeighbors, out').
     if length out' < numNeighbors then Inl SliceBoundsOutOfRange
     else
       let cache1 = cache\<lparr>Neighborhoods := (Neighborhoods cache)[i := take numNeighbors out']\<rparr>
       in
         if numNeighbors = 0 then Inl IndexOutOfRange
         else
           andThen (index (Neighborhoods cache1) i) (\<lambda>nbs.
           andThen (index nbs (numNeighbors - 1)) (\<lambda>furthest.
           andThen (index (CoreDistance cache1) i) (\<lambda>_.
           andThen (index (Employees (Lof_Db lof)) i) (\<lambda>ei.
           andThen (index (Employees (Lof_Db lof)) furthest) (\<lambda>ef.
             Inr (cache1\<lparr>CoreDistance := (CoreDistance cache1)[i := Distance ei ef]\<rparr>))))))))"

fun computeCoreDistances_loop ::
  "'f Lof \<Rightarrow> InclusionMask \<Rightarrow> nat list \<Rightarrow> 'f LofCache \<Rightarrow> panic + 'f LofCache" where
  "computeCoreDistances_loop lof im [] cache = Inr cache"
| "computeCoreDistances_loop lof im (i # rest) cache =
     andThen (IsIncluded im i) (\<lambda>included.
       if \<not> included then computeCoreDistances_loop lof im rest cache
       else andThen (coreDistance_step lof im i cache) (computeCoreDistances_loop lof im rest))"

definition computeCoreDistances :: "'f Lof \<Rightarrow> 'f LofCache \<Rightarrow> InclusionMask \<Rightarrow> panic + 'f LofCache" where
  "computeCoreDistances lof cache im =
     computeCoreDistances_loop lof im [0..<length (CoreDistance cache)] cache"

text \<open>The inner loop of \<^verbatim>\<open>computeLrds\<close>: the sum of the reachability distances.\<close>

fun reachability_sum ::
  "'f float64 \<Rightarrow> 'f Lof \<Rightarrow> 'f LofCache \<Rightarrow> nat \<Rightarrow> nat list \<Rightarrow> 'f \<Rightarrow> panic + 'f" where
  "reachability_sum F lof cache i [] sm = Inr sm"
| "reachability_sum F lof cache i (j # rest) sm =
     andThen (index (Employees (Lof_Db lof)) j) (\<lambda>ej.
     andThen (index (Employees (Lof_Db lof)) i) (\<lambda>ei.
     andThen (index (CoreDistance cache) j) (\<lambda>coreDistance.
       let reachabilityDistance =
             (if Distance ej ei < coreDistance then coreDistance else Distance ej ei)
       in reachability_sum F lof cache i rest
            (fadd F sm (from_uint F (unat reachabilityDistance))))))"

definition lrd_step :: "'f float64 \<Rightarrow> 'f Lof \<Rightarrow> nat \<Rightarrow> 'f LofCache \<Rightarrow> panic + 'f LofCache" where
  "lrd_step F lof i cache =
     andThen (index (Neighborhoods cache) i) (\<lambda>nbs.
     andThen (reachability_sum F lof cache i nbs (fzero F)) (\<lambda>sm.
     andThen (index (LocalReachabilityDensities cache) i) (\<lambda>_.
       Inr (cache\<lparr>LocalReachabilityDensities :=
              (LocalReachabilityDensities cache)[i := fdiv F (from_uint F (length nbs)) sm]\<rparr>))))"

fun computeLrds_loop ::
  "'f float64 \<Rightarrow> 'f Lof \<Rightarrow> InclusionMask \<Rightarrow> nat list \<Rightarrow> 'f LofCache \<Rightarrow> panic + 'f LofCache" where
  "computeLrds_loop F lof im [] cache = Inr cache"
| "computeLrds_loop F lof im (i # rest) cache =
     andThen (IsIncluded im i) (\<lambda>included.
       if \<not> included then computeLrds_loop F lof im rest cache
       else andThen (lrd_step F lof i cache) (computeLrds_loop F lof im rest))"

definition computeLrds :: "'f float64 \<Rightarrow> 'f Lof \<Rightarrow> 'f LofCache \<Rightarrow> InclusionMask \<Rightarrow> panic + 'f LofCache" where
  "computeLrds F lof cache im =
     computeLrds_loop F lof im [0..<length (LocalReachabilityDensities cache)] cache"

text \<open>
  \<^verbatim>\<open>type OutlierHandler func(*Employee, float64) bool\<close>. The handlers of \<^verbatim>\<open>main\<close> are
  closures that write to variables of their surroundings; that state is \<open>'h\<close>, passed to
  the handler and returned by it beside the flag.
\<close>

type_synonym ('f, 'h) OutlierHandler = "nat \<Rightarrow> 'f \<Rightarrow> 'h \<Rightarrow> bool \<times> 'h"

text \<open>The inner loop of \<^verbatim>\<open>computeLofs\<close>: the sum of the neighbours' densities.\<close>

fun lrd_sum :: "'f float64 \<Rightarrow> 'f LofCache \<Rightarrow> nat list \<Rightarrow> 'f \<Rightarrow> panic + 'f" where
  "lrd_sum F cache [] sm = Inr sm"
| "lrd_sum F cache (j # rest) sm =
     andThen (index (LocalReachabilityDensities cache) j) (\<lambda>lrd.
       lrd_sum F cache rest (fadd F sm lrd))"

definition score :: "'f float64 \<Rightarrow> 'f LofCache \<Rightarrow> nat \<Rightarrow> panic + 'f" where
  "score F cache i =
     andThen (index (Neighborhoods cache) i) (\<lambda>nbs.
     andThen (lrd_sum F cache nbs (fzero F)) (\<lambda>sm.
     andThen (index (LocalReachabilityDensities cache) i) (\<lambda>lrd.
       Inr (fdiv F sm (fmul F (from_uint F (length nbs)) lrd)))))"

fun computeLofs_loop ::
  "'f float64 \<Rightarrow> 'f Lof \<Rightarrow> 'f LofCache \<Rightarrow> InclusionMask \<Rightarrow> ('f, 'h) OutlierHandler \<Rightarrow>
     nat list \<Rightarrow> 'h \<Rightarrow> panic + 'h" where
  "computeLofs_loop F lof cache im outlierHandler [] h = Inr h"
| "computeLofs_loop F lof cache im outlierHandler (i # rest) h =
     andThen (IsIncluded im i) (\<lambda>included.
       if \<not> included then computeLofs_loop F lof cache im outlierHandler rest h
       else
         andThen (score F cache i) (\<lambda>sc.
           if fge F sc (Threshold lof) then
             andThen (index (Employees (Lof_Db lof)) i) (\<lambda>_.
               case outlierHandler i sc h of
                 (continue, h') \<Rightarrow>
                   if \<not> continue then Inr h'
                   else computeLofs_loop F lof cache im outlierHandler rest h')
           else computeLofs_loop F lof cache im outlierHandler rest h))"

definition computeLofs ::
  "'f float64 \<Rightarrow> 'f Lof \<Rightarrow> 'f LofCache \<Rightarrow> InclusionMask \<Rightarrow> ('f, 'h) OutlierHandler \<Rightarrow> 'h \<Rightarrow> panic + 'h" where
  "computeLofs F lof cache im outlierHandler h =
     computeLofs_loop F lof cache im outlierHandler
       [0..<length (LocalReachabilityDensities cache)] h"

text \<open>\<^verbatim>\<open>func (lof *Lof) FindOutliers(cache *LofCache, im *InclusionMask, outlierHandler OutlierHandler)\<close>\<close>

definition Lof_FindOutliers ::
  "'f float64 \<Rightarrow> 'f Lof \<Rightarrow> 'f LofCache \<Rightarrow> InclusionMask \<Rightarrow> ('f, 'h) OutlierHandler \<Rightarrow> 'h \<Rightarrow>
     panic + 'f LofCache \<times> 'h" where
  "Lof_FindOutliers F lof cache im outlierHandler h =
     andThen (computeCoreDistances lof cache im) (\<lambda>cache1.
     andThen (computeLrds F lof cache1 im) (\<lambda>cache2.
     andThen (computeLofs F lof cache2 im outlierHandler h) (\<lambda>h'.
       Inr (cache2, h'))))"

section \<open>The wrapper of \<^verbatim>\<open>main.go\<close>\<close>

definition MinPopulationSize :: "64 word" where
  "MinPopulationSize = 20"

text \<open>
  \<^verbatim>\<open>func FindOutliers(db, lof, cache, im, ctx, outlierHandler)\<close>: the result holds the
  cache, the mask and the handler's state as the call leaves them.
\<close>

definition FindOutliers ::
  "'f float64 \<Rightarrow> Database \<Rightarrow> 'f Lof \<Rightarrow> 'f LofCache \<Rightarrow> InclusionMask \<Rightarrow> Context \<Rightarrow>
     ('f, 'h) OutlierHandler \<Rightarrow> 'h \<Rightarrow> panic + 'f LofCache \<times> InclusionMask \<times> 'h" where
  "FindOutliers F db lof cache im ctx outlierHandler h =
     andThen (Filter db (EmployersIncluded ctx) (JobTitlesIncluded ctx) (YearsIncluded ctx))
       (\<lambda>inclusion.
     andThen (Fill im inclusion) (\<lambda>im'.
       if Count im' < MinPopulationSize then Inr (cache, im', h)
       else
         andThen (Lof_FindOutliers F lof cache im' outlierHandler h) (\<lambda>(cache', h').
           Inr (cache', im', h'))))"

section \<open>The enumeration of the supersets in \<^verbatim>\<open>main\<close>\<close>

text \<open>The constants of \<^verbatim>\<open>main\<close> that size the original context.\<close>

definition OrigCtxEmployersCount :: nat where "OrigCtxEmployersCount = 6"
definition OrigCtxJobTitlesCount :: nat where "OrigCtxJobTitlesCount = 5"
definition OrigCtxYearsCount :: nat where "OrigCtxYearsCount = 5"

text \<open>
  The three loops \<^verbatim>\<open>for i := 0; i < OrigCtx...Count; i++ { ctx....Included[i] = true }\<close>,
  over the indices \<open>[0..<count]\<close>, and the original context they build.
\<close>

fun include_first :: "nat list \<Rightarrow> bool list \<Rightarrow> panic + bool list" where
  "include_first [] xs = Inr xs"
| "include_first (i # rest) xs =
     (if i < length xs then include_first rest (xs[i := True]) else Inl IndexOutOfRange)"

definition original_context :: "Database \<Rightarrow> panic + Context" where
  "original_context db =
     andThen (include_first [0..<OrigCtxEmployersCount] (EmployersIncluded (NewContext db))) (\<lambda>es.
     andThen (include_first [0..<OrigCtxJobTitlesCount] (JobTitlesIncluded (NewContext db))) (\<lambda>js.
     andThen (include_first [0..<OrigCtxYearsCount] (YearsIncluded (NewContext db))) (\<lambda>ys.
       Inr \<lparr>EmployersIncluded = es, JobTitlesIncluded = js, YearsIncluded = ys\<rparr>)))"

text \<open>
  The variables the enumeration of \<^verbatim>\<open>main\<close> works on: the context \<^verbatim>\<open>ctx\<close> that the
  permutation writes to, the flag \<^verbatim>\<open>originalContext\<close>, the counter
  \<^verbatim>\<open>processedContexts\<close>, and the contexts sent on \<^verbatim>\<open>workChan\<close> so far, oldest first. A
  context is sent as a copy (\<^verbatim>\<open>workCtx.Copy(ctx)\<close>) in a buffer that no one else holds, so
  what is sent is the value of \<^verbatim>\<open>ctx\<close> at that moment.
\<close>

record scan =
  ctx :: Context
  originalContext :: bool
  workChan :: "Context list"
  processedContexts :: "64 word"

text \<open>
  \<^verbatim>\<open>func RecursivePermute(slice []bool, handler func())\<close>. The slice is a window of an
  array of the state: \<open>put i v\<close> writes \<open>v\<close> to place \<open>i\<close> of that array, \<open>off\<close> is where the
  window starts and the third argument is its length, so that \<^verbatim>\<open>slice[0] = v\<close> is
  \<open>put off v\<close> and \<^verbatim>\<open>slice[1:]\<close> is the window from \<open>off + 1\<close>. The handler is a closure:
  it reads and writes the state.
\<close>

fun RecursivePermute ::
  "(nat \<Rightarrow> bool \<Rightarrow> 's \<Rightarrow> 's) \<Rightarrow> nat \<Rightarrow> nat \<Rightarrow> ('s \<Rightarrow> panic + 's) \<Rightarrow> 's \<Rightarrow> panic + 's" where
  "RecursivePermute put off 0 handler st = handler st"
| "RecursivePermute put off (Suc n) handler st =
     andThen (RecursivePermute put (off + 1) n handler (put off False st))
       (\<lambda>st'. RecursivePermute put (off + 1) n handler (put off True st'))"

definition put_employer :: "nat \<Rightarrow> bool \<Rightarrow> scan \<Rightarrow> scan" where
  "put_employer i v st =
     st\<lparr>ctx := (ctx st)\<lparr>EmployersIncluded := (EmployersIncluded (ctx st))[i := v]\<rparr>\<rparr>"

definition put_jobTitle :: "nat \<Rightarrow> bool \<Rightarrow> scan \<Rightarrow> scan" where
  "put_jobTitle i v st =
     st\<lparr>ctx := (ctx st)\<lparr>JobTitlesIncluded := (JobTitlesIncluded (ctx st))[i := v]\<rparr>\<rparr>"

definition put_year :: "nat \<Rightarrow> bool \<Rightarrow> scan \<Rightarrow> scan" where
  "put_year i v st =
     st\<lparr>ctx := (ctx st)\<lparr>YearsIncluded := (YearsIncluded (ctx st))[i := v]\<rparr>\<rparr>"

text \<open>The slice expression \<^verbatim>\<open>xs[k:]\<close>: its length, or the panic when \<open>k\<close> is beyond the array.\<close>

definition slice_from :: "'a list \<Rightarrow> nat \<Rightarrow> panic + nat" where
  "slice_from xs k = (if k \<le> length xs then Inr (length xs - k) else Inl SliceBoundsOutOfRange)"

text \<open>
  The three nested calls of \<^verbatim>\<open>RecursivePermute\<close> in \<^verbatim>\<open>main\<close>, from the innermost; \<open>leaf\<close>
  is the innermost handler.
\<close>

definition permute_years :: "(scan \<Rightarrow> panic + scan) \<Rightarrow> scan \<Rightarrow> panic + scan" where
  "permute_years leaf st =
     andThen (slice_from (YearsIncluded (ctx st)) OrigCtxYearsCount) (\<lambda>n.
       RecursivePermute put_year OrigCtxYearsCount n leaf st)"

definition permute_jobTitles :: "(scan \<Rightarrow> panic + scan) \<Rightarrow> scan \<Rightarrow> panic + scan" where
  "permute_jobTitles leaf st =
     andThen (slice_from (JobTitlesIncluded (ctx st)) OrigCtxJobTitlesCount) (\<lambda>n.
       RecursivePermute put_jobTitle OrigCtxJobTitlesCount n (permute_years leaf) st)"

definition permute_contexts :: "(scan \<Rightarrow> panic + scan) \<Rightarrow> scan \<Rightarrow> panic + scan" where
  "permute_contexts leaf st =
     andThen (slice_from (EmployersIncluded (ctx st)) OrigCtxEmployersCount) (\<lambda>n.
       RecursivePermute put_employer OrigCtxEmployersCount n (permute_jobTitles leaf) st)"

text \<open>
  The innermost handler of \<^verbatim>\<open>main\<close>: it skips the first leaf, and sends a copy of the
  context to the workers for every other one.
\<close>

definition dispatch :: "scan \<Rightarrow> panic + scan" where
  "dispatch st =
     (if originalContext st then Inr (st\<lparr>originalContext := False\<rparr>)
      else Inr (st\<lparr>workChan := workChan st @ [ctx st],
                   processedContexts := processedContexts st + 1\<rparr>))"

definition enumerate_supersets :: "Context \<Rightarrow> panic + scan" where
  "enumerate_supersets c =
     permute_contexts dispatch
       \<lparr>ctx = c, originalContext = True, workChan = [], processedContexts = 0\<rparr>"

section \<open>The enumeration as the specification describes it\<close>

text \<open>
  All assignments of excluded (\<open>False\<close>) and included (\<open>True\<close>) to \<open>n\<close> values, the first
  value varying slowest and excluded before included.
\<close>

fun assignments :: "nat \<Rightarrow> bool list list" where
  "assignments 0 = [[]]"
| "assignments (Suc n) = map ((#) False) (assignments n) @ map ((#) True) (assignments n)"

text \<open>
  The contexts that keep the prefix of \<open>c\<close> and assign the flippable values: the years
  for one choice of employers and job titles, the job titles and years for one choice of
  employers, and all of them, employers outermost.
\<close>

definition expand_years :: "Context \<Rightarrow> Context list" where
  "expand_years c =
     map (\<lambda>y. c\<lparr>YearsIncluded := take OrigCtxYearsCount (YearsIncluded c) @ y\<rparr>)
       (assignments (length (YearsIncluded c) - OrigCtxYearsCount))"

definition expand_jobTitles :: "Context \<Rightarrow> Context list" where
  "expand_jobTitles c =
     concat (map (\<lambda>j. expand_years (c\<lparr>JobTitlesIncluded := take OrigCtxJobTitlesCount (JobTitlesIncluded c) @ j\<rparr>))
       (assignments (length (JobTitlesIncluded c) - OrigCtxJobTitlesCount)))"

definition supersets :: "Context \<Rightarrow> Context list" where
  "supersets c =
     concat (map (\<lambda>e. expand_jobTitles (c\<lparr>EmployersIncluded := take OrigCtxEmployersCount (EmployersIncluded c) @ e\<rparr>))
       (assignments (length (EmployersIncluded c) - OrigCtxEmployersCount)))"

text \<open>Calling the handler once for each context of a list, in order, with \<^verbatim>\<open>ctx\<close> set to it.\<close>

fun run :: "(scan \<Rightarrow> panic + scan) \<Rightarrow> Context list \<Rightarrow> scan \<Rightarrow> panic + scan" where
  "run leaf [] st = Inr st"
| "run leaf (c # cs) st = andThen (leaf (st\<lparr>ctx := c\<rparr>)) (run leaf cs)"

text \<open>A handler that leaves \<^verbatim>\<open>ctx\<close> as it found it.\<close>

definition keeps_ctx :: "(scan \<Rightarrow> panic + scan) \<Rightarrow> bool" where
  "keeps_ctx leaf = (\<forall>st st'. leaf st = Inr st' \<longrightarrow> ctx st' = ctx st)"

text \<open>
  The flippable values of a context, employers first, their number, and the relation
  between two contexts that agree on the prefix of the original context.
\<close>

definition flippable :: "Context \<Rightarrow> bool list" where
  "flippable c = drop OrigCtxEmployersCount (EmployersIncluded c)
     @ drop OrigCtxJobTitlesCount (JobTitlesIncluded c)
     @ drop OrigCtxYearsCount (YearsIncluded c)"

definition flippableVariables :: "Context \<Rightarrow> nat" where
  "flippableVariables c = (length (EmployersIncluded c) - OrigCtxEmployersCount)
     + (length (JobTitlesIncluded c) - OrigCtxJobTitlesCount)
     + (length (YearsIncluded c) - OrigCtxYearsCount)"

definition same_prefix :: "Context \<Rightarrow> Context \<Rightarrow> bool" where
  "same_prefix c c' =
     (take OrigCtxEmployersCount (EmployersIncluded c') = take OrigCtxEmployersCount (EmployersIncluded c)
      \<and> take OrigCtxJobTitlesCount (JobTitlesIncluded c') = take OrigCtxJobTitlesCount (JobTitlesIncluded c)
      \<and> take OrigCtxYearsCount (YearsIncluded c') = take OrigCtxYearsCount (YearsIncluded c)
      \<and> length (EmployersIncluded c') = length (EmployersIncluded c)
      \<and> length (JobTitlesIncluded c') = length (JobTitlesIncluded c)
      \<and> length (YearsIncluded c') = length (YearsIncluded c))"

text \<open>The lexicographic order of assignments in which excluded comes before included.\<close>

definition excluded_before_included :: "bool list \<Rightarrow> bool list \<Rightarrow> bool" where
  "excluded_before_included a b = ((a, b) \<in> lexord {(False, True)})"

text \<open>The context with every flippable value excluded.\<close>

definition exclude_flippable :: "Context \<Rightarrow> Context" where
  "exclude_flippable c =
     c\<lparr>EmployersIncluded := take OrigCtxEmployersCount (EmployersIncluded c)
          @ replicate (length (EmployersIncluded c) - OrigCtxEmployersCount) False,
       JobTitlesIncluded := take OrigCtxJobTitlesCount (JobTitlesIncluded c)
          @ replicate (length (JobTitlesIncluded c) - OrigCtxJobTitlesCount) False,
       YearsIncluded := take OrigCtxYearsCount (YearsIncluded c)
          @ replicate (length (YearsIncluded c) - OrigCtxYearsCount) False\<rparr>"

text \<open>A database with one flippable employer and one flippable year.\<close>

definition db_wide :: Database where
  "db_wide = \<lparr>Employers = [''a'', ''b'', ''c'', ''d'', ''e'', ''f'', ''g''],
              JobTitles = [''p'', ''q'', ''r'', ''s'', ''t''],
              Years = [2001, 2002, 2003, 2004, 2005, 2006],
              Employees = []\<rparr>"

definition ctx_wide :: "bool \<Rightarrow> bool \<Rightarrow> Context" where
  "ctx_wide e y =
     \<lparr>EmployersIncluded = [True, True, True, True, True, True, e],
      JobTitlesIncluded = [True, True, True, True, True],
      YearsIncluded = [True, True, True, True, True, y]\<rparr>"

section \<open>Instances used in the examples\<close>

text \<open>
  Exact arithmetic, in an ordered field such as the rationals, in the place of \<^verbatim>\<open>float64\<close>. It agrees with IEEE 754 wherever
  every intermediate value can be represented exactly and nothing is divided by zero; the
  examples that compute scores are chosen so.
\<close>

definition exact :: "'a::linordered_field float64" where
  "exact = \<lparr>fzero = 0, from_uint = of_nat, fadd = (+), fmul = (*), fdiv = (/),
            fge = (\<lambda>a b. b \<le> a)\<rparr>"

text \<open>A handler that collects every outlier and goes on, as the workers' handler does.\<close>

definition collect_all :: "(rat, (nat \<times> rat) list) OutlierHandler" where
  "collect_all i sc h = (True, h @ [(i, sc)])"

text \<open>A database of one record, and the context that includes it.\<close>

definition db_one :: Database where
  "db_one = \<lparr>Employers = [''a''], JobTitles = [''t''], Years = [2000],
             Employees = [\<lparr>Id = 1, Employer = 0, JobTitle = 0, Year = 0, Salary = 5\<rparr>]\<rparr>"

definition ctx_one :: Context where
  "ctx_one = \<lparr>EmployersIncluded = [True], JobTitlesIncluded = [True], YearsIncluded = [True]\<rparr>"

definition lof_one :: "rat Lof" where
  "lof_one = NewLof db_one \<lparr>Db = db_one, NearestNeighbors = [[]]\<rparr> 20 (3 / 2)"

section \<open>The neighbour index as the specification describes it\<close>

text \<open>
  Row \<open>i\<close> of the index in closed form: the targets of the sorted slice but for \<open>i\<close>; and
  the distance from record \<open>i\<close> to record \<open>j\<close>.
\<close>

definition neighbors_of :: "sorter \<Rightarrow> Database \<Rightarrow> nat \<Rightarrow> nat list" where
  "neighbors_of srt db i =
     map target (filter (\<lambda>nb. target nb \<noteq> i) (srt less_distance (distances db i)))"

definition distance_from :: "Database \<Rightarrow> nat \<Rightarrow> nat \<Rightarrow> Distance" where
  "distance_from db i j = Distance (Employees db ! i) (Employees db ! j)"


text \<open>
  Two sorts that meet \<open>sort_Slice_ok\<close>, both by insertion: the first keeps equal elements
  in their original order, the second reverses them.
\<close>

fun insert_stable :: "('a \<Rightarrow> 'a \<Rightarrow> bool) \<Rightarrow> 'a \<Rightarrow> 'a list \<Rightarrow> 'a list" where
  "insert_stable lt x [] = [x]"
| "insert_stable lt x (y # ys) =
     (if lt x y then x # y # ys else y # insert_stable lt x ys)"

definition stable_sort :: "('a \<Rightarrow> 'a \<Rightarrow> bool) \<Rightarrow> 'a list \<Rightarrow> 'a list" where
  "stable_sort lt xs = foldl (\<lambda>front x. insert_stable lt x front) [] xs"



text \<open>Three records; the second and the third are at the same distance from the first.\<close>

definition db_ties :: Database where
  "db_ties = \<lparr>Employers = [''a''], JobTitles = [''t''], Years = [2000],
     Employees = [\<lparr>Id = 1, Employer = 0, JobTitle = 0, Year = 0, Salary = 10\<rparr>,
                  \<lparr>Id = 2, Employer = 0, JobTitle = 0, Year = 0, Salary = 11\<rparr>,
                  \<lparr>Id = 3, Employer = 0, JobTitle = 0, Year = 0, Salary = 9\<rparr>]\<rparr>"

section \<open>The query as the specification describes it\<close>

text \<open>Every record of a row has its byte in the mask.\<close>

definition in_range :: "InclusionMask \<Rightarrow> nat list \<Rightarrow> bool" where
  "in_range im row = (\<forall>r \<in> set row. r div 8 < length (Mask im))"

text \<open>
  The included records other than \<open>i\<close>, in the order of row \<open>i\<close>; and the index that
  \<^verbatim>\<open>precomputeDistances\<close> builds, in closed form.
\<close>

definition included_neighbors :: "sorter \<Rightarrow> Database \<Rightarrow> InclusionMask \<Rightarrow> nat \<Rightarrow> nat list" where
  "included_neighbors srt db im i = filter (member_bit im) (neighbors_of srt db i)"

definition index_of :: "sorter \<Rightarrow> Database \<Rightarrow> Knn" where
  "index_of srt db =
     \<lparr>Db = db, NearestNeighbors = map (neighbors_of srt db) [0..<length (Employees db)]\<rparr>"

text \<open>The index of \<open>db_ties\<close> under the stable sort, and the mask with its three records.\<close>

definition knn_ties :: Knn where
  "knn_ties = \<lparr>Db = db_ties, NearestNeighbors = [[1, 2], [0, 2], [0, 1]]\<rparr>"

definition im_ties :: InclusionMask where
  "im_ties = \<lparr>Mask = [224], Count = 3\<rparr>"

section \<open>The scorer as the specification describes it\<close>

text \<open>
  The sizes the passes rely on: three arrays of one place per record, a mask with a bit
  for every record, and neighbours of included records that are records.
\<close>

definition cache_bounds :: "'f Lof \<Rightarrow> 'f LofCache \<Rightarrow> InclusionMask \<Rightarrow> bool" where
  "cache_bounds lof cache im =
     (length (Neighborhoods cache) = length (Employees (Lof_Db lof))
      \<and> length (CoreDistance cache) = length (Employees (Lof_Db lof))
      \<and> length (LocalReachabilityDensities cache) = length (Employees (Lof_Db lof))
      \<and> length (Employees (Lof_Db lof)) \<le> 8 * length (Mask im)
      \<and> (\<forall>i \<in> {0..<length (Employees (Lof_Db lof))}. member_bit im i \<longrightarrow>
            (\<forall>j \<in> set (Neighborhoods cache ! i). j < length (Employees (Lof_Db lof)))))"

text \<open>The score of record \<open>i\<close>, computed from the cache as the third pass does.\<close>

definition score_value :: "'f float64 \<Rightarrow> 'f LofCache \<Rightarrow> nat \<Rightarrow> 'f" where
  "score_value F cache i =
     fdiv F (foldl (fadd F) (fzero F)
               (map (\<lambda>j. LocalReachabilityDensities cache ! j) (Neighborhoods cache ! i)))
       (fmul F (from_uint F (length (Neighborhoods cache ! i)))
          (LocalReachabilityDensities cache ! i))"

text \<open>
  The included records whose score is at least the threshold, with their scores, in
  ascending order of the index.
\<close>

definition outliers :: "'f float64 \<Rightarrow> 'f Lof \<Rightarrow> 'f LofCache \<Rightarrow> InclusionMask \<Rightarrow> (nat \<times> 'f) list" where
  "outliers F lof cache im =
     filter (\<lambda>(i, sc). fge F sc (Threshold lof))
       (map (\<lambda>i. (i, score_value F cache i))
         (filter (member_bit im) [0..<length (LocalReachabilityDensities cache)]))"

text \<open>
  Reporting a list of outliers to the handler, one after the other, until the handler
  returns the stop flag.
\<close>

fun visit :: "('f, 'h) OutlierHandler \<Rightarrow> (nat \<times> 'f) list \<Rightarrow> 'h \<Rightarrow> 'h" where
  "visit outlierHandler [] h = h"
| "visit outlierHandler ((i, sc) # rest) h =
     (case outlierHandler i sc h of
        (continue, h') \<Rightarrow> if continue then visit outlierHandler rest h' else h')"

text \<open>
  Four records with salaries 0, 2, 9 and 11, a scorer with \<open>K = 2\<close> on their index, the mask
  of all four (\<^verbatim>\<open>0xF0\<close>), and the cache as the first two passes leave a fresh cache on
  that mask. Every distance, density and score of these examples is a multiple of a power
  of two, so the exact arithmetic and \<^verbatim>\<open>float64\<close> agree on them.
\<close>

definition db_four :: Database where
  "db_four = \<lparr>Employers = [''a''], JobTitles = [''t''], Years = [2000],
     Employees = [\<lparr>Id = 1, Employer = 0, JobTitle = 0, Year = 0, Salary = 0\<rparr>,
                  \<lparr>Id = 2, Employer = 0, JobTitle = 0, Year = 0, Salary = 2\<rparr>,
                  \<lparr>Id = 3, Employer = 0, JobTitle = 0, Year = 0, Salary = 9\<rparr>,
                  \<lparr>Id = 4, Employer = 0, JobTitle = 0, Year = 0, Salary = 11\<rparr>]\<rparr>"

definition lof_four :: "rat \<Rightarrow> rat Lof" where
  "lof_four threshold = NewLof db_four (index_of stable_sort db_four) 2 threshold"

definition im_four :: InclusionMask where
  "im_four = \<lparr>Mask = [240], Count = 4\<rparr>"

definition cache_four :: "rat LofCache" where
  "cache_four = \<lparr>Neighborhoods = [[1, 2], [0, 2], [3, 1], [2, 1]], CoreDistance = [9, 7, 7, 9],
     LocalReachabilityDensities = [1 / 8, 1 / 8, 1 / 8, 1 / 8]\<rparr>"

text \<open>A handler that keeps the first outlier and stops, as the handler of the original context does.\<close>

definition first_only :: "(rat, (nat \<times> rat) option) OutlierHandler" where
  "first_only i sc h = (False, Some (i, sc))"

section \<open>The first two passes as the specification describes them\<close>

text \<open>
  The neighbourhood of an included record \<open>i\<close>: its nearest included records, as many as
  the buffer \<^verbatim>\<open>Neighborhoods[i]\<close> has places. The first pass stores it, and the distance to
  its last element as the core distance of \<open>i\<close>.
\<close>

definition neighborhood :: "sorter \<Rightarrow> Database \<Rightarrow> InclusionMask \<Rightarrow> 'f LofCache \<Rightarrow> nat \<Rightarrow> nat list" where
  "neighborhood srt db im cache i =
     take (length (Neighborhoods cache ! i)) (included_neighbors srt db im i)"

definition core_pass :: "sorter \<Rightarrow> Database \<Rightarrow> InclusionMask \<Rightarrow> 'f LofCache \<Rightarrow> 'f LofCache" where
  "core_pass srt db im cache =
     cache\<lparr>Neighborhoods :=
             map (\<lambda>i. if member_bit im i then neighborhood srt db im cache i
                       else Neighborhoods cache ! i) [0..<length (Employees db)],
           CoreDistance :=
             map (\<lambda>i. if member_bit im i
                       then distance_from db i (last (neighborhood srt db im cache i))
                       else CoreDistance cache ! i) [0..<length (Employees db)]\<rparr>"

text \<open>
  The local reachability density of \<open>i\<close>: the number of its neighbours over the sum of
  the reachability distances, each the larger of the distance from the neighbour and the
  neighbour's core distance. The second pass stores it for every included record.
\<close>

definition lrd_value :: "'f float64 \<Rightarrow> Database \<Rightarrow> 'f LofCache \<Rightarrow> nat \<Rightarrow> 'f" where
  "lrd_value F db cache i =
     fdiv F (from_uint F (length (Neighborhoods cache ! i)))
       (foldl (\<lambda>sm j. fadd F sm
                 (from_uint F (unat (max (distance_from db j i) (CoreDistance cache ! j)))))
          (fzero F) (Neighborhoods cache ! i))"

definition lrd_pass :: "'f float64 \<Rightarrow> Database \<Rightarrow> InclusionMask \<Rightarrow> 'f LofCache \<Rightarrow> 'f LofCache" where
  "lrd_pass F db im cache =
     cache\<lparr>LocalReachabilityDensities :=
             map (\<lambda>i. if member_bit im i then lrd_value F db cache i
                       else LocalReachabilityDensities cache ! i) [0..<length (Employees db)]\<rparr>"

text \<open>The cache after the first two passes.\<close>

definition scored :: "'f float64 \<Rightarrow> sorter \<Rightarrow> Database \<Rightarrow> InclusionMask \<Rightarrow> 'f LofCache \<Rightarrow> 'f LofCache" where
  "scored F srt db im cache = lrd_pass F db im (core_pass srt db im cache)"

text \<open>
  The number of records a mask includes; and the caches a worker can hold: three arrays
  of one place per record, and no empty neighbour buffer.
\<close>

definition population :: "Database \<Rightarrow> InclusionMask \<Rightarrow> nat" where
  "population db im = length (filter (member_bit im) [0..<length (Employees db)])"

definition cache_ok :: "Database \<Rightarrow> 'f LofCache \<Rightarrow> bool" where
  "cache_ok db cache =
     (length (Neighborhoods cache) = length (Employees db)
      \<and> length (CoreDistance cache) = length (Employees db)
      \<and> length (LocalReachabilityDensities cache) = length (Employees db)
      \<and> (\<forall>nbs \<in> set (Neighborhoods cache). 1 \<le> length nbs))"

text \<open>
  The mask of the last two of the four records (\<^verbatim>\<open>0x30\<close>); the fresh cache after a call
  on that mask; and that cache after a further call on the mask of all four.
\<close>

definition im_four_23 :: InclusionMask where
  "im_four_23 = \<lparr>Mask = [48], Count = 2\<rparr>"

definition cache_four_23 :: "rat LofCache" where
  "cache_four_23 = \<lparr>Neighborhoods = [[0, 0], [0, 0], [3], [2]], CoreDistance = [0, 0, 2, 2],
     LocalReachabilityDensities = [0, 0, 1 / 2, 1 / 2]\<rparr>"

definition cache_four_reused :: "rat LofCache" where
  "cache_four_reused = \<lparr>Neighborhoods = [[1, 2], [0, 2], [3], [2]], CoreDistance = [9, 7, 2, 2],
     LocalReachabilityDensities = [1 / 8, 1 / 8, 1 / 2, 1 / 2]\<rparr>"


section \<open>Basic facts\<close>

lemma andThen_Inr_iff: "andThen r f = Inr y \<longleftrightarrow> (\<exists>x. r = Inr x \<and> f x = Inr y)"
  by (cases r) auto

lemma andThen_assoc: "andThen (andThen r f) g = andThen r (\<lambda>x. andThen (f x) g)"
  by (cases r) auto

lemma andThen_return: "andThen r Inr = r"
  by (cases r) auto

lemma andThen_cong:
  "r = r' \<Longrightarrow> (\<And>x. r' = Inr x \<Longrightarrow> f x = g x) \<Longrightarrow> andThen r f = andThen r' g"
  by (cases r') auto

lemma take_Suc_update: "off < length xs \<Longrightarrow> take (Suc off) (xs[off := v]) = take off xs @ [v]"
  by (simp add: take_Suc_conv_app_nth)

section \<open>The inclusion mask\<close>

lemma IsIncluded_member_bit:
  "r div 8 < length (Mask im) \<Longrightarrow> IsIncluded im r = Inr (member_bit im r)"
  by (simp add: IsIncluded_def index_def member_bit_def bit_iff_and_push_bit_not_eq_0)

lemma bit_set8: "k < 8 \<Longrightarrow> bit ((w :: 8 word) OR push_bit k 1) m \<longleftrightarrow> bit w m \<or> m = k"
  by (auto simp add: bit_or_iff bit_exp_iff)

lemma Fill_loop_step:
  "Fill_loop (incl # rest) b bt im =
     (if length (Mask im) \<le> b then Inl IndexOutOfRange
      else if bt + 1 > 7 then Fill_loop rest (b + 1) 0 (Fill_step b bt incl im)
      else Fill_loop rest b (bt + 1) (Fill_step b bt incl im))"
  by (simp add: Fill_step_def Let_def)

lemma Fill_step_length: "length (Mask (Fill_step b bt incl im)) = length (Mask im)"
  by (simp add: Fill_step_def Let_def)

lemma Fill_step_Count: "Count (Fill_step b bt incl im) = Count im + (if incl then 1 else 0)"
  by (simp add: Fill_step_def Let_def)

lemma Fill_step_member_bit:
  assumes "bt < 8" "b < length (Mask im)"
  shows "member_bit (Fill_step b bt incl im) r =
     (if r = 8 * b + bt then (incl \<or> (0 < bt \<and> member_bit im r))
      else if bt = 0 \<and> r div 8 = b then False
      else member_bit im r)"
proof (cases "r div 8 = b")
  case False
  then have "r \<noteq> 8 * b + bt" using assms by auto
  with False show ?thesis by (simp add: member_bit_def Fill_step_def Let_def)
next
  case True
  have eq: "r = 8 * b + bt \<longleftrightarrow> r mod 8 = bt" using True assms by presburger
  have m: "7 - r mod 8 = 7 - bt \<longleftrightarrow> r mod 8 = bt" using assms by presburger
  have k: "7 - bt < 8" by simp
  have A: "Mask (Fill_step b bt incl im) ! b =
      (if incl then (if bt = 0 then 0 else Mask im ! b) OR push_bit (7 - bt) 1
       else (if bt = 0 then 0 else Mask im ! b))"
    using assms by (simp add: Fill_step_def Let_def del: push_bit_of_1)
  have B: "bit (Mask (Fill_step b bt incl im) ! b) (7 - r mod 8) =
      ((incl \<and> r mod 8 = bt) \<or> (bt \<noteq> 0 \<and> bit (Mask im ! b) (7 - r mod 8)))"
    unfolding A by (simp only: bit_set8[OF k] m bit_0_eq split: if_splits) auto
  show ?thesis using True B eq by (auto simp add: member_bit_def)
qed

text \<open>
  The invariant of the loop of \<^verbatim>\<open>Fill\<close>, started at bit \<open>bt\<close> of byte \<open>b\<close> with the rest of
  that byte clear: the mask keeps its length, the bits before the start are kept, the bits
  from the start on are the values received, and \<^verbatim>\<open>Count\<close> grows by the number of
  \<^verbatim>\<open>true\<close> values received.
\<close>

lemma Fill_loop_spec:
  assumes "bt < 8"
    and "(8 * b + bt + length bs + 7) div 8 \<le> length (Mask im)"
    and "\<And>k. 0 < bt \<Longrightarrow> bt \<le> k \<Longrightarrow> k < 8 \<Longrightarrow> \<not> member_bit im (8 * b + k)"
  shows "\<exists>im'. Fill_loop bs b bt im = Inr im' \<and> length (Mask im') = length (Mask im)
      \<and> Count im' = Count im + of_nat (length (filter id bs))
      \<and> (\<forall>r < 8 * b + bt. member_bit im' r = member_bit im r)
      \<and> (\<forall>r < length bs. member_bit im' (8 * b + bt + r) = bs ! r)"
  using assms
proof (induction bs arbitrary: b bt im)
  case Nil
  then show ?case by simp
next
  case (Cons incl rest)
  let ?im2 = "Fill_step b bt incl im"
  have b: "b < length (Mask im)" using Cons.prems(1,2) by simp
  have cur: "member_bit ?im2 (8 * b + bt) = incl"
    using Fill_step_member_bit[OF Cons.prems(1) b, of incl "8 * b + bt"]
      Cons.prems(3)[of bt] Cons.prems(1)
    by auto
  have before: "member_bit ?im2 r = member_bit im r" if "r < 8 * b + bt" for r
  proof -
    have "bt = 0 \<Longrightarrow> r div 8 \<noteq> b" using that by auto
    then show ?thesis using Fill_step_member_bit[OF Cons.prems(1) b, of incl r] that by auto
  qed
  show ?case
  proof (cases "bt = 7")
    case True
    have "\<exists>im'. Fill_loop rest (b + 1) 0 ?im2 = Inr im' \<and> length (Mask im') = length (Mask ?im2)
      \<and> Count im' = Count ?im2 + of_nat (length (filter id rest))
      \<and> (\<forall>r < 8 * (b + 1) + 0. member_bit im' r = member_bit ?im2 r)
      \<and> (\<forall>r < length rest. member_bit im' (8 * (b + 1) + 0 + r) = rest ! r)"
      using Cons.prems(2) True by (intro Cons.IH) (simp_all add: Fill_step_length)
    then obtain im' where im': "Fill_loop rest (b + 1) 0 ?im2 = Inr im'"
      "length (Mask im') = length (Mask ?im2)"
      "Count im' = Count ?im2 + of_nat (length (filter id rest))"
      "\<And>r. r < 8 * (b + 1) \<Longrightarrow> member_bit im' r = member_bit ?im2 r"
      "\<And>r. r < length rest \<Longrightarrow> member_bit im' (8 * (b + 1) + r) = rest ! r"
      by auto
    have 1: "Fill_loop (incl # rest) b bt im = Inr im'"
      using b True im'(1) by (subst Fill_loop_step) simp
    have 2: "member_bit im' (8 * b + bt + r) = (incl # rest) ! r"
      if "r < length (incl # rest)" for r
    proof (cases r)
      case 0
      then show ?thesis using im'(4)[of "8 * b + bt"] cur True by simp
    next
      case (Suc r')
      then show ?thesis using im'(5)[of r'] that True by (simp add: algebra_simps)
    qed
    have 3: "member_bit im' r = member_bit im r" if "r < 8 * b + bt" for r
      using im'(4)[of r] before[OF that] that Cons.prems(1) by simp
    have 4: "Count im' = Count im + of_nat (length (filter id (incl # rest)))"
      using im'(3) by (simp add: Fill_step_Count)
    have 5: "length (Mask im') = length (Mask im)"
      using im'(2) by (simp add: Fill_step_length)
    show ?thesis using 1 2 3 4 5 by blast
  next
    case False
    then have lt: "bt + 1 < 8" using Cons.prems(1) by simp
    have clear: "\<not> member_bit ?im2 (8 * b + k)" if "bt + 1 \<le> k" "k < 8" for k
      using Fill_step_member_bit[OF Cons.prems(1) b, of incl "8 * b + k"] that
        Cons.prems(3)[of k]
      by auto
    have "\<exists>im'. Fill_loop rest b (bt + 1) ?im2 = Inr im' \<and> length (Mask im') = length (Mask ?im2)
      \<and> Count im' = Count ?im2 + of_nat (length (filter id rest))
      \<and> (\<forall>r < 8 * b + (bt + 1). member_bit im' r = member_bit ?im2 r)
      \<and> (\<forall>r < length rest. member_bit im' (8 * b + (bt + 1) + r) = rest ! r)"
      using Cons.prems(2) lt clear by (intro Cons.IH) (simp_all add: Fill_step_length)
    then obtain im' where im': "Fill_loop rest b (bt + 1) ?im2 = Inr im'"
      "length (Mask im') = length (Mask ?im2)"
      "Count im' = Count ?im2 + of_nat (length (filter id rest))"
      "\<And>r. r < 8 * b + (bt + 1) \<Longrightarrow> member_bit im' r = member_bit ?im2 r"
      "\<And>r. r < length rest \<Longrightarrow> member_bit im' (8 * b + (bt + 1) + r) = rest ! r"
      by auto
    have 1: "Fill_loop (incl # rest) b bt im = Inr im'"
      using b lt im'(1) by (subst Fill_loop_step) simp
    have 2: "member_bit im' (8 * b + bt + r) = (incl # rest) ! r"
      if "r < length (incl # rest)" for r
    proof (cases r)
      case 0
      then show ?thesis using im'(4)[of "8 * b + bt"] cur by simp
    next
      case (Suc r')
      then show ?thesis using im'(5)[of r'] that by (simp add: algebra_simps)
    qed
    have 3: "member_bit im' r = member_bit im r" if "r < 8 * b + bt" for r
      using im'(4)[of r] before[OF that] that by simp
    have 4: "Count im' = Count im + of_nat (length (filter id (incl # rest)))"
      using im'(3) by (simp add: Fill_step_Count)
    have 5: "length (Mask im') = length (Mask im)"
      using im'(2) by (simp add: Fill_step_length)
    show ?thesis using 1 2 3 4 5 by blast
  qed
qed

text \<open>
  What \<^verbatim>\<open>Fill\<close> does to a mask that is long enough, whatever the mask held before: the
  bits are rebuilt from the values received, and \<^verbatim>\<open>Count\<close> is the old \<^verbatim>\<open>Count\<close> plus the
  number of included records.
\<close>

lemma Fill_spec:
  assumes "(length bs + 7) div 8 \<le> length (Mask im)"
  shows "\<exists>im'. Fill im bs = Inr im' \<and> length (Mask im') = length (Mask im)
      \<and> Count im' = Count im + of_nat (length (filter id bs))
      \<and> (\<forall>r < length bs. IsIncluded im' r = Inr (bs ! r))"
proof -
  obtain im' where im': "Fill_loop bs 0 0 im = Inr im'" "length (Mask im') = length (Mask im)"
    "Count im' = Count im + of_nat (length (filter id bs))"
    "\<And>r. r < length bs \<Longrightarrow> member_bit im' r = bs ! r"
    using Fill_loop_spec[of 0 0 bs im] assms by auto
  have "IsIncluded im' r = Inr (bs ! r)" if "r < length bs" for r
  proof -
    have "r div 8 < length (Mask im')" using that assms im'(2) by simp
    then show ?thesis using IsIncluded_member_bit im'(4)[OF that] by simp
  qed
  then show ?thesis using im'(1,2,3) by (auto simp add: Fill_def)
qed

text \<open>
  C1. Claim: for every evaluated context \<^verbatim>\<open>Fill\<close> rebuilds the mask from scratch, so that
  bit \<open>r\<close> is set iff record \<open>r\<close> is included and \<^verbatim>\<open>Count\<close> is the number of included
  records, also when a worker uses the same mask for successive contexts.

  The bits are rebuilt (\<open>Fill_spec\<close>), but \<^verbatim>\<open>Count\<close> is only ever incremented. A worker
  that evaluates the context \<open>ctx_one\<close> of the one-record database twice with the same
  mask, as the worker loop of \<^verbatim>\<open>main\<close> does, has \<^verbatim>\<open>Count = 1\<close> after the first call and
  \<^verbatim>\<open>Count = 2\<close> after the second, with one record included each time.
\<close>

theorem Fill_reused_mask_Count:
  "FindOutliers F db_one lof cache (NewInclusionMask db_one) ctx_one outlierHandler h
     = Inr (cache, \<lparr>Mask = [128], Count = 1\<rparr>, h)
   \<and> FindOutliers F db_one lof cache \<lparr>Mask = [128], Count = 1\<rparr> ctx_one outlierHandler h
     = Inr (cache, \<lparr>Mask = [128], Count = 2\<rparr>, h)
   \<and> Filter db_one (EmployersIncluded ctx_one) (JobTitlesIncluded ctx_one)
        (YearsIncluded ctx_one) = Inr [True]"
  by (simp add: FindOutliers_def Filter_def valid_def index_def db_one_def ctx_one_def
      Fill_def NewInclusionMask_def MinPopulationSize_def)

section \<open>The minimum population\<close>

text \<open>
  C3. When the mask's \<^verbatim>\<open>Count\<close> after \<^verbatim>\<open>Fill\<close> is below \<^verbatim>\<open>MinPopulationSize\<close> (20), the
  wrapper \<^verbatim>\<open>FindOutliers\<close> returns at once: the result is the cache and the handler's
  state as they were passed in, whatever the scorer, the arithmetic and the handler are.
  So no pass of the scorer has run, the handler was not called, and nothing was divided.
\<close>

theorem FindOutliers_below_minimum:
  assumes "Filter db (EmployersIncluded workCtx) (JobTitlesIncluded workCtx) (YearsIncluded workCtx)
             = Inr inclusion"
    and "Fill im inclusion = Inr im'"
    and "Count im' < MinPopulationSize"
  shows "FindOutliers F db lof cache im workCtx outlierHandler h = Inr (cache, im', h)"
  using assms by (simp add: FindOutliers_def)

theorem FindOutliers_below_minimum_witness:
  "FindOutliers exact db_one lof_one (NewThreadCache exact lof_one) (NewInclusionMask db_one)
     ctx_one collect_all [] =
   Inr (NewThreadCache exact lof_one, \<lparr>Mask = [128], Count = 1\<rparr>, [])"
proof -
  have 1: "Filter db_one (EmployersIncluded ctx_one) (JobTitlesIncluded ctx_one)
      (YearsIncluded ctx_one) = Inr [True]"
    by (simp add: Filter_def valid_def index_def db_one_def ctx_one_def)
  have 2: "Fill (NewInclusionMask db_one) [True] = Inr \<lparr>Mask = [128], Count = 1\<rparr>"
    by (simp add: Fill_def NewInclusionMask_def db_one_def)
  have 3: "Count \<lparr>Mask = [128], Count = 1\<rparr> < MinPopulationSize"
    by (simp add: MinPopulationSize_def)
  show ?thesis by (rule FindOutliers_below_minimum[OF 1 2 3])
qed

section \<open>The enumeration of the supersets\<close>

lemma run_append: "run leaf (xs @ ys) st = andThen (run leaf xs st) (run leaf ys)"
  by (induction xs arbitrary: st) (auto simp: andThen_assoc intro!: andThen_cong)

lemma run_start: "cs \<noteq> [] \<Longrightarrow> run leaf cs (st\<lparr>ctx := c\<rparr>) = run leaf cs st"
  by (cases cs) auto

lemma run_ctx:
  assumes "keeps_ctx leaf" "run leaf cs st = Inr st'" "cs \<noteq> []"
  shows "ctx st' = last cs"
  using assms(2,3)
proof (induction cs arbitrary: st)
  case Nil then show ?case by simp
next
  case (Cons c cs)
  from Cons.prems(1) obtain s1 where s1: "leaf (st\<lparr>ctx := c\<rparr>) = Inr s1" "run leaf cs s1 = Inr st'"
    by (auto simp: andThen_Inr_iff)
  have c1: "ctx s1 = c" using assms(1) s1(1) by (auto simp: keeps_ctx_def)
  show ?case
  proof (cases "cs = []")
    case True then show ?thesis using s1 c1 by simp
  next
    case False then show ?thesis using Cons.IH[OF s1(2)] by simp
  qed
qed

lemma assignments_nonempty: "assignments n \<noteq> []"
  by (induction n) auto

lemma last_assignments: "last (assignments n) = replicate n True"
  by (induction n) (auto simp: last_map assignments_nonempty)

lemma hd_assignments: "hd (assignments n) = replicate n False"
  by (induction n) (auto simp: hd_map assignments_nonempty hd_append)

lemma length_assignments: "length (assignments n) = 2 ^ n"
  by (induction n) auto

lemma set_assignments: "set (assignments n) = {bs. length bs = n}"
proof (induction n)
  case 0 then show ?case by auto
next
  case (Suc n)
  show ?case
  proof (rule set_eqI)
    fix bs :: "bool list"
    show "bs \<in> set (assignments (Suc n)) \<longleftrightarrow> bs \<in> {bs. length bs = Suc n}"
      using Suc by (cases bs) (auto simp: image_iff)
  qed
qed

lemma distinct_assignments: "distinct (assignments n)"
  by (induction n) (auto simp: distinct_map)


lemma run_Nil: "run leaf [] = Inr"
  by (rule ext) simp

lemma concat_map_nonempty: "xs \<noteq> [] \<Longrightarrow> (\<And>x. f x \<noteq> []) \<Longrightarrow> concat (map f xs) \<noteq> []"
  by (cases xs) auto

lemma last_concat_map:
  "xs \<noteq> [] \<Longrightarrow> (\<And>x. f x \<noteq> []) \<Longrightarrow> last (concat (map f xs)) = last (f (last xs))"
proof (induction xs)
  case Nil then show ?case by simp
next
  case (Cons x xs)
  show ?case
  proof (cases "xs = []")
    case True then show ?thesis by simp
  next
    case False
    then have "concat (map f xs) \<noteq> []" using Cons.prems(2) by (rule concat_map_nonempty)
    then show ?thesis using False Cons by simp
  qed
qed

lemma RecursivePermute_level:
  fixes A :: "Context \<Rightarrow> bool list" and setA :: "bool list \<Rightarrow> Context \<Rightarrow> Context"
    and G :: "Context \<Rightarrow> Context list" and I :: "Context \<Rightarrow> bool"
  assumes leaf: "keeps_ctx leaf"
    and put: "\<And>i v s. put i v s = s\<lparr>ctx := setA ((A (ctx s))[i := v]) (ctx s)\<rparr>"
    and get_set: "\<And>zs c. A (setA zs c) = zs"
    and set_set: "\<And>zs zs' c. setA zs (setA zs' c) = setA zs c"
    and set_get: "\<And>c. setA (A c) c = c"
    and h_run: "\<And>s. I (ctx s) \<Longrightarrow> h s = run leaf (G (ctx s)) s"
    and G_ne: "\<And>c. G c \<noteq> []"
    and I_set: "\<And>c zs. I c \<Longrightarrow> I (setA zs c)"
    and I_last: "\<And>c. I c \<Longrightarrow> I (last (G c))"
    and A_last: "\<And>c. A (last (G c)) = A c"
    and G_last: "\<And>c zs. G (setA zs (last (G c))) = G (setA zs c)"
    and len: "off + n = length (A (ctx st))"
    and inv: "I (ctx st)"
  shows "RecursivePermute put off n h st =
     run leaf (concat (map (\<lambda>bs. G (setA (take off (A (ctx st)) @ bs) (ctx st))) (assignments n))) st"
  using len inv
proof (induction n arbitrary: off st)
  case 0
  then show ?case using h_run by (simp add: set_get)
next
  case (Suc n)
  let ?c = "ctx st"
  let ?A = "A ?c"
  let ?L = "\<lambda>v. concat (map (\<lambda>bs. G (setA (take off ?A @ v # bs) ?c)) (assignments n))"
  have off: "off < length ?A" using Suc.prems by simp
  have L_ne: "?L v \<noteq> []" for v
    by (rule concat_map_nonempty) (simp_all add: assignments_nonempty G_ne)
  have half: "RecursivePermute put (Suc off) n h (put off v s) = run leaf (?L v) s"
    if h1: "length (A (ctx s)) = length ?A" and h2: "take off (A (ctx s)) = take off ?A"
      and h3: "\<And>zs. G (setA zs (ctx s)) = G (setA zs ?c)" and h4: "I (ctx s)" for v s
  proof -
    let ?c1 = "ctx (put off v s)"
    have c1: "?c1 = setA ((A (ctx s))[off := v]) (ctx s)" by (simp add: put)
    have l: "Suc off + n = length (A ?c1)" using Suc.prems(1) h1 by (simp add: c1 get_set)
    have i: "I ?c1" unfolding c1 using h4 by (rule I_set)
    have t: "take (Suc off) (A ?c1) = take off ?A @ [v]"
      using off h1 h2 by (simp add: c1 get_set take_Suc_update)
    have g: "G (setA zs ?c1) = G (setA zs ?c)" for zs
      by (simp add: c1 set_set h3)
    have "RecursivePermute put (Suc off) n h (put off v s) = run leaf (?L v) (put off v s)"
      unfolding Suc.IH[OF l i] t g by simp
    also have "\<dots> = run leaf (?L v) s"
      unfolding put by (rule run_start) (rule L_ne)
    finally show ?thesis .
  qed
  have first: "RecursivePermute put (Suc off) n h (put off False st) = run leaf (?L False) st"
    by (rule half) (simp_all add: Suc.prems)
  have second: "RecursivePermute put (Suc off) n h (put off True st') = run leaf (?L True) st'"
    if "run leaf (?L False) st = Inr st'" for st'
  proof -
    let ?cs = "setA (take off ?A @ False # replicate n True) ?c"
    have "ctx st' = last (?L False)"
      using run_ctx[OF leaf that] L_ne by simp
    then have c': "ctx st' = last (G ?cs)"
      by (simp add: last_concat_map assignments_nonempty G_ne last_assignments)
    show ?thesis
    proof (rule half)
      show "length (A (ctx st')) = length ?A"
        using Suc.prems(1) by (simp add: c' A_last get_set)
      show "take off (A (ctx st')) = take off ?A"
        using off by (simp add: c' A_last get_set)
      show "G (setA zs (ctx st')) = G (setA zs ?c)" for zs
        by (simp add: c' G_last set_set)
      show "I (ctx st')"
        unfolding c' by (intro I_last I_set Suc.prems(2))
    qed
  qed
  have "RecursivePermute put off (Suc n) h st =
      andThen (run leaf (?L False) st)
        (\<lambda>st'. RecursivePermute put (Suc off) n h (put off True st'))"
    by (simp add: first)
  also have "\<dots> = andThen (run leaf (?L False) st) (run leaf (?L True))"
    by (rule andThen_cong) (simp_all add: second)
  also have "\<dots> = run leaf (concat (map (\<lambda>bs. G (setA (take off ?A @ bs) ?c))
       (assignments (Suc n)))) st"
    by (simp add: run_append comp_def)
  finally show ?case .
qed


lemma keeps_ctx_update_id: "st\<lparr>ctx := ctx st\<rparr> = st"
  by simp

lemma length_assignments_elem: "bs \<in> set (assignments n) \<Longrightarrow> length bs = n"
  by (simp add: set_assignments)

lemma last_expand_years:
  "last (expand_years c) =
     c\<lparr>YearsIncluded := take OrigCtxYearsCount (YearsIncluded c)
          @ replicate (length (YearsIncluded c) - OrigCtxYearsCount) True\<rparr>"
  by (simp add: expand_years_def last_map assignments_nonempty last_assignments)

lemma expand_years_nonempty: "expand_years c \<noteq> []"
  by (simp add: expand_years_def assignments_nonempty)

lemma permute_years_run:
  assumes "keeps_ctx leaf" "OrigCtxYearsCount \<le> length (YearsIncluded (ctx st))"
  shows "permute_years leaf st = run leaf (expand_years (ctx st)) st"
proof -
  have "RecursivePermute put_year OrigCtxYearsCount
          (length (YearsIncluded (ctx st)) - OrigCtxYearsCount) leaf st =
        run leaf (concat (map (\<lambda>bs. [(ctx st)\<lparr>YearsIncluded :=
               take OrigCtxYearsCount (YearsIncluded (ctx st)) @ bs\<rparr>])
          (assignments (length (YearsIncluded (ctx st)) - OrigCtxYearsCount)))) st"
    by (rule RecursivePermute_level[where A = YearsIncluded
          and setA = "\<lambda>zs c. c\<lparr>YearsIncluded := zs\<rparr>" and I = "\<lambda>_. True" and G = "\<lambda>c. [c]"])
       (use assms in \<open>simp_all add: put_year_def run_Nil andThen_return\<close>)
  then show ?thesis
    using assms(2) by (simp add: permute_years_def slice_from_def expand_years_def)
qed

lemma last_expand_jobTitles:
  "last (expand_jobTitles c) =
     c\<lparr>JobTitlesIncluded := take OrigCtxJobTitlesCount (JobTitlesIncluded c)
          @ replicate (length (JobTitlesIncluded c) - OrigCtxJobTitlesCount) True,
       YearsIncluded := take OrigCtxYearsCount (YearsIncluded c)
          @ replicate (length (YearsIncluded c) - OrigCtxYearsCount) True\<rparr>"
  by (simp add: expand_jobTitles_def last_concat_map assignments_nonempty last_assignments
      expand_years_nonempty last_expand_years)

lemma expand_jobTitles_nonempty: "expand_jobTitles c \<noteq> []"
  unfolding expand_jobTitles_def
  by (rule concat_map_nonempty) (simp_all add: assignments_nonempty expand_years_nonempty)

lemma permute_jobTitles_run:
  assumes "keeps_ctx leaf" "OrigCtxJobTitlesCount \<le> length (JobTitlesIncluded (ctx st))"
    "OrigCtxYearsCount \<le> length (YearsIncluded (ctx st))"
  shows "permute_jobTitles leaf st = run leaf (expand_jobTitles (ctx st)) st"
proof -
  have "RecursivePermute put_jobTitle OrigCtxJobTitlesCount
          (length (JobTitlesIncluded (ctx st)) - OrigCtxJobTitlesCount) (permute_years leaf) st =
        run leaf (concat (map (\<lambda>bs. expand_years ((ctx st)\<lparr>JobTitlesIncluded :=
               take OrigCtxJobTitlesCount (JobTitlesIncluded (ctx st)) @ bs\<rparr>))
          (assignments (length (JobTitlesIncluded (ctx st)) - OrigCtxJobTitlesCount)))) st"
  proof (rule RecursivePermute_level[where A = JobTitlesIncluded
          and setA = "\<lambda>zs c. c\<lparr>JobTitlesIncluded := zs\<rparr>"
          and I = "\<lambda>c. OrigCtxYearsCount \<le> length (YearsIncluded c)" and G = expand_years])
    show "permute_years leaf s = run leaf (expand_years (ctx s)) s"
      if "OrigCtxYearsCount \<le> length (YearsIncluded (ctx s))" for s
      using assms(1) that by (rule permute_years_run)
    show "expand_years (last (expand_years c)\<lparr>JobTitlesIncluded := zs\<rparr>)
        = expand_years (c\<lparr>JobTitlesIncluded := zs\<rparr>)" for c zs
      unfolding last_expand_years by (simp add: expand_years_def min_def)
  qed (use assms in \<open>simp_all add: put_jobTitle_def expand_years_nonempty last_expand_years\<close>)
  then show ?thesis
    using assms(2) by (simp add: permute_jobTitles_def slice_from_def expand_jobTitles_def)
qed

lemma permute_contexts_run:
  assumes "keeps_ctx leaf" "OrigCtxEmployersCount \<le> length (EmployersIncluded (ctx st))"
    "OrigCtxJobTitlesCount \<le> length (JobTitlesIncluded (ctx st))"
    "OrigCtxYearsCount \<le> length (YearsIncluded (ctx st))"
  shows "permute_contexts leaf st = run leaf (supersets (ctx st)) st"
proof -
  have "RecursivePermute put_employer OrigCtxEmployersCount
          (length (EmployersIncluded (ctx st)) - OrigCtxEmployersCount) (permute_jobTitles leaf) st =
        run leaf (concat (map (\<lambda>bs. expand_jobTitles ((ctx st)\<lparr>EmployersIncluded :=
               take OrigCtxEmployersCount (EmployersIncluded (ctx st)) @ bs\<rparr>))
          (assignments (length (EmployersIncluded (ctx st)) - OrigCtxEmployersCount)))) st"
  proof (rule RecursivePermute_level[where A = EmployersIncluded
          and setA = "\<lambda>zs c. c\<lparr>EmployersIncluded := zs\<rparr>"
          and I = "\<lambda>c. OrigCtxJobTitlesCount \<le> length (JobTitlesIncluded c)
                     \<and> OrigCtxYearsCount \<le> length (YearsIncluded c)"
          and G = expand_jobTitles])
    show "permute_jobTitles leaf s = run leaf (expand_jobTitles (ctx s)) s"
      if "OrigCtxJobTitlesCount \<le> length (JobTitlesIncluded (ctx s))
          \<and> OrigCtxYearsCount \<le> length (YearsIncluded (ctx s))" for s
      using assms(1) that by (intro permute_jobTitles_run) simp_all
    show "expand_jobTitles (last (expand_jobTitles c)\<lparr>EmployersIncluded := zs\<rparr>)
        = expand_jobTitles (c\<lparr>EmployersIncluded := zs\<rparr>)" for c zs
      unfolding last_expand_jobTitles by (simp add: expand_jobTitles_def expand_years_def min_def)
  qed (use assms in \<open>simp_all add: put_employer_def expand_jobTitles_nonempty last_expand_jobTitles\<close>)
  then show ?thesis
    using assms(2) by (simp add: permute_contexts_def slice_from_def supersets_def)
qed


lemma assignments_add:
  "assignments (a + b) = concat (map (\<lambda>x. map (\<lambda>y. x @ y) (assignments b)) (assignments a))"
proof -
  have 1: "((@) []) = (\<lambda>x :: bool list. x)" by (rule ext) simp
  have 2: "((@) (v # x)) = (\<lambda>y. v # (x @ y))" for v :: bool and x by (rule ext) simp
  show ?thesis
    by (induction a) (simp_all add: map_concat comp_def 1 2)
qed

lemma hd_concat_map:
  "xs \<noteq> [] \<Longrightarrow> (\<And>x. f x \<noteq> []) \<Longrightarrow> hd (concat (map f xs)) = hd (f (hd xs))"
  by (cases xs) simp_all

lemma assignments_sorted: "sorted_wrt excluded_before_included (assignments n)"
proof (induction n)
  case 0 then show ?case by simp
next
  case (Suc n)
  have "sorted_wrt excluded_before_included (map ((#) v) (assignments n))" for v
    using Suc by (simp add: sorted_wrt_map excluded_before_included_def)
  moreover have "excluded_before_included (False # a) (True # b)" for a b
    by (simp add: excluded_before_included_def)
  ultimately show ?case
    by (auto simp add: sorted_wrt_append)
qed

lemma map_flippable_supersets:
  assumes "OrigCtxEmployersCount \<le> length (EmployersIncluded c)"
    "OrigCtxJobTitlesCount \<le> length (JobTitlesIncluded c)"
    "OrigCtxYearsCount \<le> length (YearsIncluded c)"
  shows "map flippable (supersets c) = assignments (flippableVariables c)"
proof -
  define me where "me = length (EmployersIncluded c) - OrigCtxEmployersCount"
  define mj where "mj = length (JobTitlesIncluded c) - OrigCtxJobTitlesCount"
  define my where "my = length (YearsIncluded c) - OrigCtxYearsCount"
  have fv: "flippableVariables c = me + (mj + my)"
    by (simp add: flippableVariables_def me_def mj_def my_def)
  have sup: "supersets c = concat (map (\<lambda>e. concat (map (\<lambda>j. map (\<lambda>y.
      c\<lparr>EmployersIncluded := take OrigCtxEmployersCount (EmployersIncluded c) @ e,
        JobTitlesIncluded := take OrigCtxJobTitlesCount (JobTitlesIncluded c) @ j,
        YearsIncluded := take OrigCtxYearsCount (YearsIncluded c) @ y\<rparr>)
      (assignments my)) (assignments mj))) (assignments me))"
    by (simp add: supersets_def expand_jobTitles_def expand_years_def me_def mj_def my_def)
  show ?thesis
    unfolding fv sup using assms
    by (simp add: flippable_def assignments_add map_concat comp_def)
qed

lemma supersets_same_prefix:
  assumes "c' \<in> set (supersets c)"
  shows "same_prefix c c'"
proof -
  from assms obtain e j y where
    "e \<in> set (assignments (length (EmployersIncluded c) - OrigCtxEmployersCount))"
    "j \<in> set (assignments (length (JobTitlesIncluded c) - OrigCtxJobTitlesCount))"
    "y \<in> set (assignments (length (YearsIncluded c) - OrigCtxYearsCount))"
    "c' = c\<lparr>EmployersIncluded := take OrigCtxEmployersCount (EmployersIncluded c) @ e,
           JobTitlesIncluded := take OrigCtxJobTitlesCount (JobTitlesIncluded c) @ j,
           YearsIncluded := take OrigCtxYearsCount (YearsIncluded c) @ y\<rparr>"
    by (auto simp add: supersets_def expand_jobTitles_def expand_years_def)
  then show ?thesis
    by (auto simp add: same_prefix_def set_assignments min_def)
qed

lemma supersets_nonempty: "supersets c \<noteq> []"
  unfolding supersets_def
  by (rule concat_map_nonempty) (simp_all add: assignments_nonempty expand_jobTitles_nonempty)

lemma hd_supersets: "hd (supersets c) = exclude_flippable c"
  by (simp add: supersets_def expand_jobTitles_def expand_years_def hd_concat_map hd_map
      assignments_nonempty hd_assignments exclude_flippable_def)

lemma include_first_Inr:
  "include_first is xs = Inr ys \<Longrightarrow>
     length ys = length xs \<and> (\<forall>i < length xs. ys ! i = (xs ! i \<or> i \<in> set is))
     \<and> (\<forall>i \<in> set is. i < length xs)"
proof (induction "is" arbitrary: xs)
  case Nil then show ?case by simp
next
  case (Cons i "is")
  then have i: "i < length xs" and r: "include_first is (xs[i := True]) = Inr ys"
    by (auto split: if_splits)
  from Cons.IH[OF r] show ?case using i by (auto simp add: nth_list_update)
qed

lemma original_context_excluded:
  assumes "original_context db = Inr c"
  shows "exclude_flippable c = c"
    and "OrigCtxEmployersCount \<le> length (EmployersIncluded c)"
    and "OrigCtxJobTitlesCount \<le> length (JobTitlesIncluded c)"
    and "OrigCtxYearsCount \<le> length (YearsIncluded c)"
proof -
  from assms obtain es js ys where
    es: "include_first [0..<OrigCtxEmployersCount] (EmployersIncluded (NewContext db)) = Inr es"
    and js: "include_first [0..<OrigCtxJobTitlesCount] (JobTitlesIncluded (NewContext db)) = Inr js"
    and ys: "include_first [0..<OrigCtxYearsCount] (YearsIncluded (NewContext db)) = Inr ys"
    and c: "c = \<lparr>EmployersIncluded = es, JobTitlesIncluded = js, YearsIncluded = ys\<rparr>"
    by (auto simp add: original_context_def andThen_Inr_iff)
  have *: "take k zs @ replicate (length zs - k) False = zs \<and> k \<le> length zs"
    if "include_first [0..<k] (replicate n False) = Inr zs" for k n zs
  proof -
    from include_first_Inr[OF that]
    have l: "length zs = n" and v: "\<And>i. i < n \<Longrightarrow> zs ! i = (i < k)"
      and k: "\<And>i. i < k \<Longrightarrow> i < n"
      by auto
    have kn: "k \<le> n" using k[of "k - 1"] by (cases k) auto
    have "take k zs @ replicate (length zs - k) False = zs"
      using l v kn by (auto simp add: list_eq_iff_nth_eq nth_append)
    then show ?thesis using kn l by simp
  qed
  show "exclude_flippable c = c"
    using *[OF es[unfolded NewContext_def, simplified]] *[OF js[unfolded NewContext_def, simplified]]
      *[OF ys[unfolded NewContext_def, simplified]]
    by (simp add: exclude_flippable_def c)
  show "OrigCtxEmployersCount \<le> length (EmployersIncluded c)"
    using *[OF es[unfolded NewContext_def, simplified]] by (simp add: c)
  show "OrigCtxJobTitlesCount \<le> length (JobTitlesIncluded c)"
    using *[OF js[unfolded NewContext_def, simplified]] by (simp add: c)
  show "OrigCtxYearsCount \<le> length (YearsIncluded c)"
    using *[OF ys[unfolded NewContext_def, simplified]] by (simp add: c)
qed

lemma keeps_ctx_dispatch: "keeps_ctx dispatch"
  by (auto simp add: keeps_ctx_def dispatch_def split: if_splits)

lemma run_dispatch:
  "\<not> originalContext st \<Longrightarrow>
   run dispatch cs st =
     Inr (st\<lparr>ctx := last (ctx st # cs), workChan := workChan st @ cs,
             processedContexts := processedContexts st + of_nat (length cs)\<rparr>)"
proof (induction cs arbitrary: st)
  case Nil then show ?case by simp
next
  case (Cons c cs)
  then show ?case by (simp add: dispatch_def)
qed

lemma run_dispatch_first:
  "cs \<noteq> [] \<Longrightarrow>
   run dispatch cs \<lparr>ctx = c, originalContext = True, workChan = [], processedContexts = 0\<rparr> =
     Inr \<lparr>ctx = last cs, originalContext = False, workChan = tl cs,
          processedContexts = of_nat (length cs - 1)\<rparr>"
  by (cases cs) (simp_all add: dispatch_def run_dispatch)


text \<open>
  C4. For an original context \<open>c\<close> with \<open>m = flippableVariables c\<close> flippable values, the
  nested \<^verbatim>\<open>RecursivePermute\<close> calls of \<^verbatim>\<open>main\<close> invoke the innermost handler once for each
  context of \<open>supersets c\<close>, in that order, with \<^verbatim>\<open>ctx\<close> set to it, for every handler that
  leaves \<^verbatim>\<open>ctx\<close> alone. That list has \<open>2 ^ m\<close> elements; their flippable parts are distinct,
  are all the assignments of length \<open>m\<close>, and come in the lexicographic order with
  excluded before included, the employers first, then the job titles, then the years.
  Every element keeps the prefix of \<open>c\<close>. The first element has every flippable value
  excluded, and is the original context that \<^verbatim>\<open>main\<close> builds. With the handler of
  \<^verbatim>\<open>main\<close>, what is sent to the workers is the list without its first element.
\<close>

theorem RecursivePermute_enumerates_supersets:
  assumes "keeps_ctx leaf"
    and "ctx st = c"
    and "OrigCtxEmployersCount \<le> length (EmployersIncluded c)"
    and "OrigCtxJobTitlesCount \<le> length (JobTitlesIncluded c)"
    and "OrigCtxYearsCount \<le> length (YearsIncluded c)"
  shows "permute_contexts leaf st = run leaf (supersets c) st
     \<and> length (supersets c) = 2 ^ flippableVariables c
     \<and> distinct (map flippable (supersets c))
     \<and> set (map flippable (supersets c)) = {bs. length bs = flippableVariables c}
     \<and> sorted_wrt excluded_before_included (map flippable (supersets c))
     \<and> (\<forall>c' \<in> set (supersets c). same_prefix c c')
     \<and> hd (supersets c) = exclude_flippable c
     \<and> (original_context db = Inr c \<longrightarrow> hd (supersets c) = c)
     \<and> enumerate_supersets c =
         Inr \<lparr>ctx = last (supersets c), originalContext = False, workChan = tl (supersets c),
              processedContexts = of_nat (2 ^ flippableVariables c - 1)\<rparr>"
proof -
  have m: "map flippable (supersets c) = assignments (flippableVariables c)"
    using assms(3-5) by (rule map_flippable_supersets)
  have 1: "permute_contexts leaf st = run leaf (supersets c) st"
    using permute_contexts_run[OF assms(1), of st] assms(2-5) by simp
  have 2: "length (supersets c) = 2 ^ flippableVariables c"
    using arg_cong[OF m, of length] by (simp add: length_assignments)
  have 3: "distinct (map flippable (supersets c))"
    unfolding m by (rule distinct_assignments)
  have 4: "set (map flippable (supersets c)) = {bs. length bs = flippableVariables c}"
    unfolding m by (rule set_assignments)
  have 5: "sorted_wrt excluded_before_included (map flippable (supersets c))"
    unfolding m by (rule assignments_sorted)
  have 6: "\<forall>c' \<in> set (supersets c). same_prefix c c'"
    using supersets_same_prefix by blast
  have 7: "hd (supersets c) = exclude_flippable c"
    by (rule hd_supersets)
  have 8: "original_context db = Inr c \<longrightarrow> hd (supersets c) = c"
    using original_context_excluded(1)[of db c] 7 by simp
  have "enumerate_supersets c =
      run dispatch (supersets c)
        \<lparr>ctx = c, originalContext = True, workChan = [], processedContexts = 0\<rparr>"
    unfolding enumerate_supersets_def
    using permute_contexts_run[OF keeps_ctx_dispatch,
        of "\<lparr>ctx = c, originalContext = True, workChan = [], processedContexts = 0\<rparr>"] assms(3-5)
    by simp
  then have 9: "enumerate_supersets c =
         Inr \<lparr>ctx = last (supersets c), originalContext = False, workChan = tl (supersets c),
              processedContexts = of_nat (2 ^ flippableVariables c - 1)\<rparr>"
    by (simp add: run_dispatch_first[OF supersets_nonempty] 2)
  show ?thesis using 1 2 3 4 5 6 7 8 9 by blast
qed

theorem RecursivePermute_enumerates_supersets_witness:
  "original_context db_wide = Inr (ctx_wide False False)
   \<and> enumerate_supersets (ctx_wide False False) =
       Inr \<lparr>ctx = ctx_wide True True, originalContext = False,
            workChan = [ctx_wide False True, ctx_wide True False, ctx_wide True True],
            processedContexts = 3\<rparr>
   \<and> hd (supersets (ctx_wide False False)) = ctx_wide False False
   \<and> length (supersets (ctx_wide False False)) = 4"
proof -
  let ?c = "ctx_wide False False"
  let ?st = "\<lparr>ctx = ?c, originalContext = True, workChan = [], processedContexts = 0\<rparr>"
  have o: "original_context db_wide = Inr ?c"
    by (simp add: original_context_def db_wide_def ctx_wide_def NewContext_def
        OrigCtxEmployersCount_def OrigCtxJobTitlesCount_def OrigCtxYearsCount_def
        upt_rec numeral_eq_Suc)
  have f: "flippableVariables ?c = 2"
    by (simp add: flippableVariables_def ctx_wide_def
        OrigCtxEmployersCount_def OrigCtxJobTitlesCount_def OrigCtxYearsCount_def)
  have s: "supersets ?c = [ctx_wide False False, ctx_wide False True, ctx_wide True False,
      ctx_wide True True]"
    by (simp add: supersets_def expand_jobTitles_def expand_years_def ctx_wide_def
        OrigCtxEmployersCount_def OrigCtxJobTitlesCount_def OrigCtxYearsCount_def)
  have l: "OrigCtxEmployersCount \<le> length (EmployersIncluded ?c)"
    "OrigCtxJobTitlesCount \<le> length (JobTitlesIncluded ?c)"
    "OrigCtxYearsCount \<le> length (YearsIncluded ?c)"
    by (simp_all add: ctx_wide_def
        OrigCtxEmployersCount_def OrigCtxJobTitlesCount_def OrigCtxYearsCount_def)
  have "ctx ?st = ?c" by simp
  from RecursivePermute_enumerates_supersets[OF keeps_ctx_dispatch this l, of db_wide]
  show ?thesis using o by (simp add: f s)
qed

section \<open>The neighbour index\<close>

lemma copy_neighbors_spec:
  "next \<le> length row \<Longrightarrow> copy_neighbors i nbs next row =
     (if next + length (filter (\<lambda>nb. target nb \<noteq> i) nbs) \<le> length row
      then Inr (take next row @ map target (filter (\<lambda>nb. target nb \<noteq> i) nbs)
                @ drop (next + length (filter (\<lambda>nb. target nb \<noteq> i) nbs)) row)
      else Inl IndexOutOfRange)"
proof (induction nbs arbitrary: "next" row)
  case Nil
  then show ?case by simp
next
  case (Cons nb rest)
  show ?case
  proof (cases "target nb = i")
    case True
    then show ?thesis using Cons.IH[OF Cons.prems] by simp
  next
    case False
    show ?thesis
    proof (cases "next < length row")
      case lt: True
      have "take (Suc next) (row[next := target nb]) = take next row @ [target nb]"
        using lt by (simp add: take_Suc_update)
      then show ?thesis using False lt Cons.IH[of "next + 1" "row[next := target nb]"]
        by (auto simp add: Suc_le_eq)
    next
      case ge: False
      then show ?thesis using False Cons.prems by simp
    qed
  qed
qed

lemma map_target_distances: "map target (distances db i) = [0..<length (Employees db)]"
  by (simp add: distances_def comp_def map_idI)

lemma sorted_targets:
  assumes "sort_Slice_ok srt"
  shows "mset (map target (srt less_distance (distances db i))) = mset [0..<length (Employees db)]"
proof -
  have "mset (srt less_distance (distances db i)) = mset (distances db i)"
    using assms by (simp add: sort_Slice_ok_def)
  then have "mset (map target (srt less_distance (distances db i))) = mset (map target (distances db i))"
    by (metis mset_map)
  then show ?thesis by (simp add: map_target_distances)
qed

lemma mset_neighbors_of:
  assumes "sort_Slice_ok srt"
  shows "mset (neighbors_of srt db i) = mset (filter (\<lambda>j. j \<noteq> i) [0..<length (Employees db)])"
proof -
  have "neighbors_of srt db i = filter (\<lambda>j. j \<noteq> i) (map target (srt less_distance (distances db i)))"
    by (simp add: neighbors_of_def filter_map comp_def)
  then show ?thesis using sorted_targets[OF assms, of db i]
    by (metis mset_filter)
qed

lemma length_neighbors_of:
  assumes "sort_Slice_ok srt" "i < length (Employees db)"
  shows "length (neighbors_of srt db i) = length (Employees db) - 1"
proof -
  have "length (neighbors_of srt db i) = length (filter (\<lambda>j. j \<noteq> i) [0..<length (Employees db)])"
    using mset_neighbors_of[OF assms(1), of db i] by (metis size_mset)
  also have "\<dots> = card ({j. j \<noteq> i} \<inter> set [0..<length (Employees db)])"
    by (rule distinct_length_filter) simp
  also have "{j. j \<noteq> i} \<inter> set [0..<length (Employees db)] = {0..<length (Employees db)} - {i}"
    by auto
  also have "card \<dots> = length (Employees db) - 1"
    using assms(2) by simp
  finally show ?thesis .
qed

lemma neighbor_row_spec:
  assumes "sort_Slice_ok srt" "i < length (Employees db)"
  shows "neighbor_row srt db i = Inr (neighbors_of srt db i)"
  using length_neighbors_of[OF assms]
  by (simp add: neighbor_row_def copy_neighbors_spec neighbors_of_def)

lemma collect_map_Inr: "(\<And>x. x \<in> set xs \<Longrightarrow> f x = Inr (g x)) \<Longrightarrow> collect (map f xs) = Inr (map g xs)"
  by (induction xs) auto

lemma precomputeDistances_spec:
  assumes "sort_Slice_ok srt"
  shows "precomputeDistances srt db =
     Inr \<lparr>Db = db, NearestNeighbors = map (neighbors_of srt db) [0..<length (Employees db)]\<rparr>"
  using collect_map_Inr[of "[0..<length (Employees db)]" "neighbor_row srt db" "neighbors_of srt db"]
    neighbor_row_spec[OF assms]
  by (simp add: precomputeDistances_def)



lemma mset_insert_stable: "mset (insert_stable lt x ys) = add_mset x (mset ys)"
  by (induction ys) auto


lemma set_insert_stable: "set (insert_stable lt x ys) = insert x (set ys)"
  by (induction ys) auto


lemma sorted_insert_stable:
  "sorted_wrt (\<lambda>a b. \<not> less_distance b a) ys \<Longrightarrow>
   sorted_wrt (\<lambda>a b. \<not> less_distance b a) (insert_stable less_distance x ys)"
  by (induction ys) (auto simp add: set_insert_stable less_distance_def)


lemma stable_sort_ok: "sort_Slice_ok stable_sort"
proof -
  have m: "mset (foldl (\<lambda>front x. insert_stable lt x front) acc xs) = mset acc + mset xs"
    for lt :: "neighbor \<Rightarrow> neighbor \<Rightarrow> bool" and acc xs
    by (induction xs arbitrary: acc) (simp_all add: mset_insert_stable)
  have s: "sorted_wrt (\<lambda>a b. \<not> less_distance b a)
      (foldl (\<lambda>front x. insert_stable less_distance x front) acc xs)"
    if "sorted_wrt (\<lambda>a b. \<not> less_distance b a) acc" for acc xs
    using that by (induction xs arbitrary: acc) (simp_all add: sorted_insert_stable)
  show ?thesis by (simp add: sort_Slice_ok_def stable_sort_def m s)
qed





section \<open>The query \<^verbatim>\<open>KNearest\<close>\<close>

lemma KNearest_loop_spec:
  assumes "in_range im row" "v < length out"
  shows "KNearest_loop im row v out =
     Inr (v + min (length out - v) (length (filter (member_bit im) row)),
          take v out @ take (length out - v) (filter (member_bit im) row)
            @ drop (v + min (length out - v) (length (filter (member_bit im) row))) out)"
  using assms
proof (induction row arbitrary: v out)
  case Nil
  then show ?case by simp
next
  case (Cons nb rest)
  have r: "in_range im rest" and nb: "IsIncluded im nb = Inr (member_bit im nb)"
    using Cons.prems(1) by (simp_all add: in_range_def IsIncluded_member_bit)
  show ?case
  proof (cases "member_bit im nb")
    case False
    then show ?thesis using Cons.IH[OF r Cons.prems(2)] nb by simp
  next
    case True
    show ?thesis
    proof (cases "v + 1 \<ge> length out")
      case last: True
      then have "length out - v = 1" using Cons.prems(2) by simp
      then show ?thesis using nb True last Cons.prems(2)
        by (simp add: upd_conv_take_nth_drop)
    next
      case more: False
      then have v1: "v + 1 < length (out[v := nb])" by simp
      have t: "take (Suc v) (out[v := nb]) = take v out @ [nb]"
        using Cons.prems(2) by (simp add: take_Suc_update)
      have m: "min (length out - v) (Suc f) = Suc (min (length out - Suc v) f)" for f
        using more by (auto simp add: min_def)
      have k: "length out - v = Suc (length out - Suc v)"
        using more by simp
      show ?thesis using nb True more Cons.prems(2) Cons.IH[OF r v1]
        by (simp add: t m) (simp add: k)
    qed
  qed
qed

lemma KNearest_loop_empty:
  assumes "in_range im row"
  shows "KNearest_loop im row 0 [] =
     (if filter (member_bit im) row = [] then Inr (0, []) else Inl IndexOutOfRange)"
  using assms
proof (induction row)
  case Nil then show ?case by simp
next
  case (Cons nb rest)
  then show ?case by (simp add: in_range_def IsIncluded_member_bit)
qed


lemma set_neighbors_of:
  assumes "sort_Slice_ok srt"
  shows "set (neighbors_of srt db i) = {j. j < length (Employees db) \<and> j \<noteq> i}"
proof -
  have "set (neighbors_of srt db i) = set (filter (\<lambda>j. j \<noteq> i) [0..<length (Employees db)])"
    using mset_neighbors_of[OF assms, of db i] by (metis set_mset_mset)
  then show ?thesis by auto
qed

lemma distinct_neighbors_of:
  assumes "sort_Slice_ok srt"
  shows "distinct (neighbors_of srt db i)"
proof -
  have "distinct (filter (\<lambda>j. j \<noteq> i) [0..<length (Employees db)])" by simp
  then show ?thesis
    using mset_neighbors_of[OF assms, of db i] by (metis mset_eq_imp_distinct_iff)
qed

lemma in_range_neighbors_of:
  assumes "sort_Slice_ok srt" "length (Employees db) \<le> 8 * length (Mask im)"
  shows "in_range im (neighbors_of srt db i)"
  using assms(2) by (auto simp add: in_range_def set_neighbors_of[OF assms(1)])

lemma length_included_neighbors:
  assumes "sort_Slice_ok srt"
  shows "length (included_neighbors srt db im i)
     = card {j. j < length (Employees db) \<and> j \<noteq> i \<and> member_bit im j}"
proof -
  have "length (included_neighbors srt db im i)
      = card ({j. member_bit im j} \<inter> set (neighbors_of srt db i))"
    unfolding included_neighbors_def
    by (rule distinct_length_filter) (rule distinct_neighbors_of[OF assms])
  also have "{j. member_bit im j} \<inter> set (neighbors_of srt db i)
      = {j. j < length (Employees db) \<and> j \<noteq> i \<and> member_bit im j}"
    by (auto simp add: set_neighbors_of[OF assms])
  finally show ?thesis .
qed

lemma KNearest_index_of:
  assumes "sort_Slice_ok srt" "i < length (Employees db)"
    and "length (Employees db) \<le> 8 * length (Mask im)" and "1 \<le> length out"
  shows "KNearest (index_of srt db) im i out =
     Inr (min (length out) (length (included_neighbors srt db im i)),
          take (length out) (included_neighbors srt db im i)
            @ drop (min (length out) (length (included_neighbors srt db im i))) out)"
proof -
  have "0 < length out" using assms(4) by (cases out) simp_all
  from KNearest_loop_spec[OF in_range_neighbors_of[OF assms(1,3)] this, of i]
  show ?thesis using assms(2)
    by (simp add: KNearest_def index_of_def index_def included_neighbors_def)
qed




text \<open>
  The bound test of \<^verbatim>\<open>KNearest\<close> follows the write: a buffer without a place, which
  only a scorer with \<^verbatim>\<open>K = 0\<close> would allocate, makes the first included neighbour
  panic.
\<close>

lemma KNearest_empty_buffer_panics:
  "precomputeDistances stable_sort db_ties = Inr knn_ties
   \<and> Fill (NewInclusionMask db_ties) [True, True, True] = Inr im_ties
   \<and> KNearest knn_ties im_ties 0 [] = Inl IndexOutOfRange"
  by code_simp

section \<open>The third pass\<close>

lemma lrd_sum_spec:
  "(\<And>j. j \<in> set nbs \<Longrightarrow> j < length (LocalReachabilityDensities cache)) \<Longrightarrow>
   lrd_sum F cache nbs sm =
     Inr (foldl (fadd F) sm (map (\<lambda>j. LocalReachabilityDensities cache ! j) nbs))"
  by (induction nbs arbitrary: sm) (simp_all add: index_def)

lemma score_spec:
  assumes "cache_bounds lof cache im" "i < length (Employees (Lof_Db lof))" "member_bit im i"
  shows "score F cache i = Inr (score_value F cache i)"
proof -
  have "j < length (LocalReachabilityDensities cache)" if "j \<in> set (Neighborhoods cache ! i)" for j
    using assms that by (auto simp add: cache_bounds_def)
  then have "lrd_sum F cache (Neighborhoods cache ! i) (fzero F) =
     Inr (foldl (fadd F) (fzero F)
       (map (\<lambda>j. LocalReachabilityDensities cache ! j) (Neighborhoods cache ! i)))"
    by (rule lrd_sum_spec)
  then show ?thesis using assms(1,2)
    by (simp add: score_def score_value_def index_def cache_bounds_def)
qed

lemma computeLofs_loop_spec:
  assumes "cache_bounds lof cache im" "\<And>i. i \<in> set idx \<Longrightarrow> i < length (Employees (Lof_Db lof))"
  shows "computeLofs_loop F lof cache im outlierHandler idx h =
     Inr (visit outlierHandler
       (filter (\<lambda>(i, sc). fge F sc (Threshold lof))
         (map (\<lambda>i. (i, score_value F cache i)) (filter (member_bit im) idx))) h)"
  using assms(2)
proof (induction idx arbitrary: h)
  case Nil
  then show ?case by simp
next
  case (Cons i rest)
  have i: "i < length (Employees (Lof_Db lof))" using Cons.prems by simp
  then have inc: "IsIncluded im i = Inr (member_bit im i)"
    using assms(1) by (intro IsIncluded_member_bit) (auto simp add: cache_bounds_def)
  have IH: "computeLofs_loop F lof cache im outlierHandler rest h' =
     Inr (visit outlierHandler
       (filter (\<lambda>(i, sc). fge F sc (Threshold lof))
         (map (\<lambda>i. (i, score_value F cache i)) (filter (member_bit im) rest))) h')" for h'
    using Cons.prems by (intro Cons.IH) simp
  show ?case
  proof (cases "member_bit im i")
    case False
    then show ?thesis using inc IH by simp
  next
    case True
    note sc = score_spec[OF assms(1) i True, of F]
    show ?thesis
    proof (cases "fge F (score_value F cache i) (Threshold lof)")
      case False
      then show ?thesis using inc True sc IH by simp
    next
      case ge: True
      obtain continue h' where r: "outlierHandler i (score_value F cache i) h = (continue, h')"
        by (cases "outlierHandler i (score_value F cache i) h")
      show ?thesis using inc True sc ge r i IH[of h']
        by (simp add: index_def)
    qed
  qed
qed


text \<open>
  C9. On a cache whose sizes and neighbour indices are in range, the third pass calls the
  handler for the elements of \<open>outliers\<close> in order, until the handler returns the stop
  flag: \<open>outliers\<close> holds exactly the included records whose score is at least the
  threshold, each with its score, in ascending order of the record index, and \<open>visit\<close>
  ends with the state the handler returns with the flag \<open>False\<close>, without looking at the
  records after it. This holds whatever the floating-point arithmetic is.
\<close>

theorem computeLofs_visits_outliers:
  assumes "cache_bounds lof cache im"
  shows "computeLofs F lof cache im outlierHandler h =
       Inr (visit outlierHandler (outliers F lof cache im) h)
     \<and> set (outliers F lof cache im) =
         {(i, score_value F cache i) | i. i < length (LocalReachabilityDensities cache)
            \<and> member_bit im i \<and> fge F (score_value F cache i) (Threshold lof)}
     \<and> sorted (map fst (outliers F lof cache im))
     \<and> distinct (map fst (outliers F lof cache im))"
proof -
  let ?idx = "filter (member_bit im) [0..<length (LocalReachabilityDensities cache)]"
  have 1: "computeLofs F lof cache im outlierHandler h =
       Inr (visit outlierHandler (outliers F lof cache im) h)"
    unfolding computeLofs_def outliers_def
    using assms by (intro computeLofs_loop_spec) (simp_all add: cache_bounds_def)
  have 2: "set (outliers F lof cache im) =
         {(i, score_value F cache i) | i. i < length (LocalReachabilityDensities cache)
            \<and> member_bit im i \<and> fge F (score_value F cache i) (Threshold lof)}"
    by (auto simp add: outliers_def)
  have m: "map fst (outliers F lof cache im) =
      filter (\<lambda>i. fge F (score_value F cache i) (Threshold lof)) ?idx"
  proof -
    have "map fst (filter (\<lambda>(i, sc). P sc) (map (\<lambda>i. (i, f i)) xs)) = filter (\<lambda>i. P (f i)) xs"
      for P :: "'a \<Rightarrow> bool" and f :: "nat \<Rightarrow> 'a" and xs
      by (induction xs) auto
    then show ?thesis unfolding outliers_def .
  qed
  have 3: "sorted (map fst (outliers F lof cache im))"
    unfolding m by (simp add: sorted_wrt_filter)
  have 4: "distinct (map fst (outliers F lof cache im))"
    unfolding m by simp
  show ?thesis using 1 2 3 4 by blast
qed

theorem computeLofs_visits_outliers_witness:
  "computeLofs exact (lof_four 1) cache_four im_four first_only None = Inr (Some (0, 1))
   \<and> computeLofs exact (lof_four 1) cache_four im_four collect_all [] =
       Inr [(0, 1), (1, 1), (2, 1), (3, 1)]"
proof -
  have b: "cache_bounds (lof_four 1) cache_four im_four"
    by code_simp
  have o: "outliers exact (lof_four 1) cache_four im_four = [(0, 1), (1, 1), (2, 1), (3, 1)]"
    by code_simp
  show ?thesis
    using computeLofs_visits_outliers[OF b, of exact first_only None]
      computeLofs_visits_outliers[OF b, of exact collect_all "[]"]
    unfolding o by (simp add: first_only_def collect_all_def)
qed

section \<open>The first two passes\<close>

lemma coreDistance_step_spec:
  assumes srt: "sort_Slice_ok srt" and lof: "Neighbors lof = index_of srt db" "Lof_Db lof = db"
    and i: "i < length (Employees db)" and im: "length (Employees db) \<le> 8 * length (Mask im)"
    and len: "length (Neighborhoods cache) = length (Employees db)"
      "length (CoreDistance cache) = length (Employees db)"
    and out: "1 \<le> length (Neighborhoods cache ! i)"
    and ne: "included_neighbors srt db im i \<noteq> []"
  shows "coreDistance_step lof im i cache =
     Inr (cache\<lparr>Neighborhoods := (Neighborhoods cache)[i := neighborhood srt db im cache i],
                CoreDistance := (CoreDistance cache)
                  [i := distance_from db i (last (neighborhood srt db im cache i))]\<rparr>)"
proof -
  define out where "out = Neighborhoods cache ! i"
  define I where "I = included_neighbors srt db im i"
  define c where "c = min (length out) (length I)"
  define out' where "out' = take (length out) I @ drop c out"
  define nbs where "nbs = neighborhood srt db im cache i"
  have k: "KNearest (index_of srt db) im i out = Inr (c, out')"
    unfolding out_def I_def c_def out'_def
    by (rule KNearest_index_of[OF srt i im out])
  have c0: "c \<noteq> 0" using out ne unfolding c_def out_def I_def
    by (cases "included_neighbors srt db im i"; cases "Neighborhoods cache ! i") auto
  have t: "take c out' = nbs"
    by (simp add: nbs_def neighborhood_def out'_def c_def out_def I_def min_def)
  have lo: "\<not> length out' < c" by (simp add: out'_def c_def)
  have l: "length nbs = c" by (simp add: nbs_def neighborhood_def c_def out_def I_def)
  have c1: "c - 1 < length nbs" using c0 l by simp
  have nne: "nbs \<noteq> []" using c1 by auto
  have "set nbs \<subseteq> set (neighbors_of srt db i)"
    using set_take_subset[of "length (Neighborhoods cache ! i)" "included_neighbors srt db im i"]
    by (auto simp add: nbs_def neighborhood_def included_neighbors_def)
  then have f: "last nbs < length (Employees db)"
    using last_in_set[OF nne] by (auto simp add: set_neighbors_of[OF srt])
  have la: "nbs ! (c - 1) = last nbs"
    using nne l by (simp add: last_conv_nth)
  have "coreDistance_step lof im i cache =
     Inr (cache\<lparr>Neighborhoods := (Neighborhoods cache)[i := nbs],
                CoreDistance := (CoreDistance cache)[i := distance_from db i (last nbs)]\<rparr>)"
    using i len c1 la f
    by (simp add: coreDistance_step_def index_def out_def[symmetric] k lo t c0 lof
        distance_from_def)
  then show ?thesis unfolding nbs_def .
qed


lemma computeCoreDistances_loop_spec:
  assumes srt: "sort_Slice_ok srt" and lof: "Neighbors lof = index_of srt db" "Lof_Db lof = db"
    and im: "length (Employees db) \<le> 8 * length (Mask im)"
    and idx: "distinct idx" "\<And>i. i \<in> set idx \<Longrightarrow> i < length (Employees db)"
    and len: "length (Neighborhoods cache) = length (Employees db)"
      "length (CoreDistance cache) = length (Employees db)"
    and ok: "\<And>i. i \<in> set idx \<Longrightarrow> member_bit im i \<Longrightarrow>
      1 \<le> length (Neighborhoods cache ! i) \<and> included_neighbors srt db im i \<noteq> []"
  shows "computeCoreDistances_loop lof im idx cache =
     Inr (cache\<lparr>Neighborhoods :=
             map (\<lambda>i. if i \<in> set idx \<and> member_bit im i then neighborhood srt db im cache i
                       else Neighborhoods cache ! i) [0..<length (Employees db)],
           CoreDistance :=
             map (\<lambda>i. if i \<in> set idx \<and> member_bit im i
                       then distance_from db i (last (neighborhood srt db im cache i))
                       else CoreDistance cache ! i) [0..<length (Employees db)]\<rparr>)"
  using idx len ok
proof (induction idx arbitrary: cache)
  case Nil
  have "map ((!) (Neighborhoods cache)) [0..<length (Employees db)] = Neighborhoods cache"
    "map ((!) (CoreDistance cache)) [0..<length (Employees db)] = CoreDistance cache"
    using Nil.prems(3,4) map_nth[of "Neighborhoods cache"] map_nth[of "CoreDistance cache"]
    by simp_all
  then show ?case by simp
next
  case (Cons i rest)
  let ?n = "length (Employees db)"
  have i: "i < ?n" using Cons.prems(2) by simp
  have inc: "IsIncluded im i = Inr (member_bit im i)"
    using i im by (intro IsIncluded_member_bit) auto
  have d: "distinct rest" "i \<notin> set rest" using Cons.prems(1) by simp_all
  have r: "\<And>j. j \<in> set rest \<Longrightarrow> j < ?n" using Cons.prems(2) by simp
  show ?case
  proof (cases "member_bit im i")
    case False
    have "computeCoreDistances_loop lof im rest cache =
      Inr (cache\<lparr>Neighborhoods :=
             map (\<lambda>i. if i \<in> set rest \<and> member_bit im i then neighborhood srt db im cache i
                       else Neighborhoods cache ! i) [0..<?n],
           CoreDistance :=
             map (\<lambda>i. if i \<in> set rest \<and> member_bit im i
                       then distance_from db i (last (neighborhood srt db im cache i))
                       else CoreDistance cache ! i) [0..<?n]\<rparr>)"
      using Cons.prems(3-5) by (intro Cons.IH d r) simp_all
    moreover have "(j \<in> set (i # rest) \<and> member_bit im j) = (j \<in> set rest \<and> member_bit im j)" for j
      using False by auto
    ultimately show ?thesis using inc False by simp
  next
    case True
    define cache1 where "cache1 =
       cache\<lparr>Neighborhoods := (Neighborhoods cache)[i := neighborhood srt db im cache i],
             CoreDistance := (CoreDistance cache)
               [i := distance_from db i (last (neighborhood srt db im cache i))]\<rparr>"
    have st: "coreDistance_step lof im i cache = Inr cache1"
      unfolding cache1_def
      using Cons.prems(5)[of i] True
      by (intro coreDistance_step_spec srt lof i im Cons.prems(3,4)) simp_all
    have same: "Neighborhoods cache1 ! j = Neighborhoods cache ! j"
      "CoreDistance cache1 ! j = CoreDistance cache ! j"
      "neighborhood srt db im cache1 j = neighborhood srt db im cache j" if "j \<noteq> i" for j
      using that by (simp_all add: cache1_def neighborhood_def)
    have at: "Neighborhoods cache1 ! i = neighborhood srt db im cache i"
      "CoreDistance cache1 ! i = distance_from db i (last (neighborhood srt db im cache i))"
      using i Cons.prems(3,4) by (simp_all add: cache1_def)
    have IH: "computeCoreDistances_loop lof im rest cache1 =
      Inr (cache1\<lparr>Neighborhoods :=
             map (\<lambda>i. if i \<in> set rest \<and> member_bit im i then neighborhood srt db im cache1 i
                       else Neighborhoods cache1 ! i) [0..<?n],
           CoreDistance :=
             map (\<lambda>i. if i \<in> set rest \<and> member_bit im i
                       then distance_from db i (last (neighborhood srt db im cache1 i))
                       else CoreDistance cache1 ! i) [0..<?n]\<rparr>)"
    proof (intro Cons.IH d r)
      show "length (Neighborhoods cache1) = ?n" "length (CoreDistance cache1) = ?n"
        using Cons.prems(3,4) by (simp_all add: cache1_def)
      show "1 \<le> length (Neighborhoods cache1 ! j) \<and> included_neighbors srt db im j \<noteq> []"
        if "j \<in> set rest" "member_bit im j" for j
      proof -
        have "j \<noteq> i" using that(1) d(2) by auto
        then show ?thesis using that Cons.prems(5)[of j] same(1)[of j] by simp
      qed
    qed
    have pN: "(if j \<in> set rest \<and> member_bit im j then neighborhood srt db im cache1 j
                       else Neighborhoods cache1 ! j)
        = (if j \<in> set (i # rest) \<and> member_bit im j then neighborhood srt db im cache j
                       else Neighborhoods cache ! j)" for j
    proof (cases "j = i")
      case True
      then show ?thesis using d(2) \<open>member_bit im i\<close> at(1) by simp
    next
      case False
      then show ?thesis using same(1,3)[OF False] by simp
    qed
    have pC: "(if j \<in> set rest \<and> member_bit im j
                       then distance_from db j (last (neighborhood srt db im cache1 j))
                       else CoreDistance cache1 ! j)
        = (if j \<in> set (i # rest) \<and> member_bit im j
                       then distance_from db j (last (neighborhood srt db im cache j))
                       else CoreDistance cache ! j)" for j
    proof (cases "j = i")
      case True
      then show ?thesis using d(2) \<open>member_bit im i\<close> at(2) by simp
    next
      case False
      then show ?thesis using same(2,3)[OF False] by simp
    qed
    have "computeCoreDistances_loop lof im (i # rest) cache =
        computeCoreDistances_loop lof im rest cache1"
      using inc True st by simp
    then show ?thesis
      unfolding IH pN pC by (simp add: cache1_def)
  qed
qed

lemma computeCoreDistances_spec:
  assumes srt: "sort_Slice_ok srt" and lof: "Neighbors lof = index_of srt db" "Lof_Db lof = db"
    and im: "length (Employees db) \<le> 8 * length (Mask im)"
    and len: "length (Neighborhoods cache) = length (Employees db)"
      "length (CoreDistance cache) = length (Employees db)"
    and ok: "\<And>i. i < length (Employees db) \<Longrightarrow> member_bit im i \<Longrightarrow>
      1 \<le> length (Neighborhoods cache ! i) \<and> included_neighbors srt db im i \<noteq> []"
  shows "computeCoreDistances lof cache im = Inr (core_pass srt db im cache)"
proof -
  have "computeCoreDistances_loop lof im [0..<length (Employees db)] cache =
     Inr (cache\<lparr>Neighborhoods :=
             map (\<lambda>i. if i \<in> set [0..<length (Employees db)] \<and> member_bit im i
                       then neighborhood srt db im cache i
                       else Neighborhoods cache ! i) [0..<length (Employees db)],
           CoreDistance :=
             map (\<lambda>i. if i \<in> set [0..<length (Employees db)] \<and> member_bit im i
                       then distance_from db i (last (neighborhood srt db im cache i))
                       else CoreDistance cache ! i) [0..<length (Employees db)]\<rparr>)"
    using ok by (intro computeCoreDistances_loop_spec srt lof im len) simp_all
  moreover have "map (\<lambda>i. if i \<in> set [0..<length (Employees db)] \<and> member_bit im i then f i else g i)
        [0..<length (Employees db)]
      = map (\<lambda>i. if member_bit im i then f i else g i) [0..<length (Employees db)]"
    for f g :: "nat \<Rightarrow> 'a"
    by (intro map_cong) auto
  ultimately show ?thesis
    by (simp add: computeCoreDistances_def core_pass_def len)
qed


lemma reachability_sum_spec:
  assumes "Lof_Db lof = db" "i < length (Employees db)"
    "length (CoreDistance cache) = length (Employees db)"
    "\<And>j. j \<in> set nbs \<Longrightarrow> j < length (Employees db)"
  shows "reachability_sum F lof cache i nbs sm =
     Inr (foldl (\<lambda>sm j. fadd F sm
                 (from_uint F (unat (max (distance_from db j i) (CoreDistance cache ! j)))))
          sm nbs)"
  using assms(4)
proof (induction nbs arbitrary: sm)
  case Nil
  then show ?case by simp
next
  case (Cons j rest)
  have j: "j < length (Employees db)" using Cons.prems by simp
  have m: "(if a < b then b else a) = max a b" for a b :: Distance
    by (auto simp add: max_def)
  show ?case
    using j assms(1-3) Cons.IH Cons.prems
    by (simp add: index_def distance_from_def m Let_def)
qed

lemma lrd_step_spec:
  assumes "Lof_Db lof = db" "cache_bounds lof cache im" "i < length (Employees db)" "member_bit im i"
  shows "lrd_step F lof i cache =
     Inr (cache\<lparr>LocalReachabilityDensities :=
            (LocalReachabilityDensities cache)[i := lrd_value F db cache i]\<rparr>)"
proof -
  have "reachability_sum F lof cache i (Neighborhoods cache ! i) (fzero F) =
     Inr (foldl (\<lambda>sm j. fadd F sm
                 (from_uint F (unat (max (distance_from db j i) (CoreDistance cache ! j)))))
          (fzero F) (Neighborhoods cache ! i))"
    using assms by (intro reachability_sum_spec) (auto simp add: cache_bounds_def)
  then show ?thesis
    using assms by (simp add: lrd_step_def index_def lrd_value_def cache_bounds_def)
qed

lemma computeLrds_loop_spec:
  assumes lof: "Lof_Db lof = db"
    and idx: "distinct idx" "\<And>i. i \<in> set idx \<Longrightarrow> i < length (Employees db)"
    and b: "cache_bounds lof cache im"
  shows "computeLrds_loop F lof im idx cache =
     Inr (cache\<lparr>LocalReachabilityDensities :=
             map (\<lambda>i. if i \<in> set idx \<and> member_bit im i then lrd_value F db cache i
                       else LocalReachabilityDensities cache ! i) [0..<length (Employees db)]\<rparr>)"
  using idx b
proof (induction idx arbitrary: cache)
  case Nil
  have "map ((!) (LocalReachabilityDensities cache)) [0..<length (Employees db)]
      = LocalReachabilityDensities cache"
    using Nil.prems(3) map_nth[of "LocalReachabilityDensities cache"] lof
    by (simp add: cache_bounds_def)
  then show ?case by simp
next
  case (Cons i rest)
  let ?n = "length (Employees db)"
  have i: "i < ?n" using Cons.prems(2) by simp
  have inc: "IsIncluded im i = Inr (member_bit im i)"
    using i Cons.prems(3) lof by (intro IsIncluded_member_bit) (auto simp add: cache_bounds_def)
  have d: "distinct rest" "i \<notin> set rest" using Cons.prems(1) by simp_all
  have r: "\<And>j. j \<in> set rest \<Longrightarrow> j < ?n" using Cons.prems(2) by simp
  show ?case
  proof (cases "member_bit im i")
    case False
    have "computeLrds_loop F lof im rest cache =
      Inr (cache\<lparr>LocalReachabilityDensities :=
             map (\<lambda>i. if i \<in> set rest \<and> member_bit im i then lrd_value F db cache i
                       else LocalReachabilityDensities cache ! i) [0..<?n]\<rparr>)"
      using Cons.prems(3) by (intro Cons.IH d r)
    moreover have "(j \<in> set (i # rest) \<and> member_bit im j) = (j \<in> set rest \<and> member_bit im j)" for j
      using False by auto
    ultimately show ?thesis using inc False by simp
  next
    case True
    define cache1 where "cache1 = cache\<lparr>LocalReachabilityDensities :=
            (LocalReachabilityDensities cache)[i := lrd_value F db cache i]\<rparr>"
    have st: "lrd_step F lof i cache = Inr cache1"
      unfolding cache1_def using lof Cons.prems(3) i True by (rule lrd_step_spec)
    have b1: "cache_bounds lof cache1 im"
      using Cons.prems(3) by (simp add: cache_bounds_def cache1_def)
    have v: "lrd_value F db cache1 j = lrd_value F db cache j" for j
      by (simp add: lrd_value_def cache1_def)
    have li: "i < length (LocalReachabilityDensities cache)"
      using i Cons.prems(3) lof by (simp add: cache_bounds_def)
    have IH: "computeLrds_loop F lof im rest cache1 =
      Inr (cache1\<lparr>LocalReachabilityDensities :=
             map (\<lambda>i. if i \<in> set rest \<and> member_bit im i then lrd_value F db cache1 i
                       else LocalReachabilityDensities cache1 ! i) [0..<?n]\<rparr>)"
      using b1 by (intro Cons.IH d r)
    have p: "(if j \<in> set rest \<and> member_bit im j then lrd_value F db cache1 j
                       else LocalReachabilityDensities cache1 ! j)
        = (if j \<in> set (i # rest) \<and> member_bit im j then lrd_value F db cache j
                       else LocalReachabilityDensities cache ! j)" for j
    proof (cases "j = i")
      case True
      then show ?thesis using d(2) \<open>member_bit im i\<close> li
        unfolding v by (simp add: cache1_def)
    next
      case False
      then show ?thesis unfolding v by (simp add: cache1_def)
    qed
    have "computeLrds_loop F lof im (i # rest) cache = computeLrds_loop F lof im rest cache1"
      using inc True st by simp
    then show ?thesis unfolding IH p by (simp add: cache1_def)
  qed
qed

lemma computeLrds_spec:
  assumes "Lof_Db lof = db" "cache_bounds lof cache im"
  shows "computeLrds F lof cache im = Inr (lrd_pass F db im cache)"
proof -
  have n: "length (LocalReachabilityDensities cache) = length (Employees db)"
    using assms by (simp add: cache_bounds_def)
  have "computeLrds_loop F lof im [0..<length (Employees db)] cache =
     Inr (cache\<lparr>LocalReachabilityDensities :=
             map (\<lambda>i. if i \<in> set [0..<length (Employees db)] \<and> member_bit im i
                       then lrd_value F db cache i
                       else LocalReachabilityDensities cache ! i) [0..<length (Employees db)]\<rparr>)"
    using assms by (intro computeLrds_loop_spec) simp_all
  moreover have "map (\<lambda>i. if i \<in> set [0..<length (Employees db)] \<and> member_bit im i then f i else g i)
        [0..<length (Employees db)]
      = map (\<lambda>i. if member_bit im i then f i else g i) [0..<length (Employees db)]"
    for f g :: "nat \<Rightarrow> 'f"
    by (intro map_cong) auto
  ultimately show ?thesis
    by (simp add: computeLrds_def lrd_pass_def n)
qed


lemma included_neighbors_nonempty:
  assumes "sort_Slice_ok srt" "i < length (Employees db)" "member_bit im i" "2 \<le> population db im"
  shows "included_neighbors srt db im i \<noteq> []"
proof -
  let ?S = "{j. j < length (Employees db) \<and> member_bit im j}"
  have "population db im = card ({j. member_bit im j} \<inter> set [0..<length (Employees db)])"
    unfolding population_def by (rule distinct_length_filter) simp
  also have "{j. member_bit im j} \<inter> set [0..<length (Employees db)] = ?S" by auto
  finally have p: "population db im = card ?S" .
  have f: "finite ?S" by simp
  have "{j. j < length (Employees db) \<and> j \<noteq> i \<and> member_bit im j} = ?S - {i}" by auto
  then have "length (included_neighbors srt db im i) = card (?S - {i})"
    using length_included_neighbors[OF assms(1), of db im i] by simp
  also have "\<dots> = card ?S - 1" using assms(2,3) f by (simp add: card_Diff_singleton)
  finally show ?thesis using assms(4) p by auto
qed

lemma core_pass_bounds:
  assumes srt: "sort_Slice_ok srt" and lof: "Lof_Db lof = db"
    and im: "length (Employees db) \<le> 8 * length (Mask im)"
    and ok: "cache_ok db cache"
  shows "cache_bounds lof (core_pass srt db im cache) im"
proof -
  have "j < length (Employees db)"
    if "i < length (Employees db)" "member_bit im i"
      "j \<in> set (Neighborhoods (core_pass srt db im cache) ! i)" for i j
  proof -
    have "j \<in> set (neighborhood srt db im cache i)"
      using that by (simp add: core_pass_def)
    then have "j \<in> set (neighbors_of srt db i)"
      using set_take_subset[of "length (Neighborhoods cache ! i)" "included_neighbors srt db im i"]
      by (auto simp add: neighborhood_def included_neighbors_def)
    then show ?thesis by (simp add: set_neighbors_of[OF srt])
  qed
  then show ?thesis
    using ok im lof by (auto simp add: cache_bounds_def cache_ok_def core_pass_def)
qed

lemma lrd_pass_bounds:
  assumes "Lof_Db lof = db" "cache_bounds lof cache im"
  shows "cache_bounds lof (lrd_pass F db im cache) im"
  using assms by (simp add: cache_bounds_def lrd_pass_def)

lemma computeLofs_spec:
  assumes "cache_bounds lof cache im"
  shows "computeLofs F lof cache im outlierHandler h =
     Inr (visit outlierHandler (outliers F lof cache im) h)"
  unfolding computeLofs_def outliers_def
  using assms by (intro computeLofs_loop_spec) (simp_all add: cache_bounds_def)

lemma scored_ok:
  assumes srt: "sort_Slice_ok srt" and ok: "cache_ok db cache" and p: "2 \<le> population db im"
  shows "cache_ok db (scored F srt db im cache)"
proof -
  have "1 \<le> length (neighborhood srt db im cache i)"
    if "i < length (Employees db)" "member_bit im i" for i
  proof -
    have "included_neighbors srt db im i \<noteq> []"
      using srt that p by (rule included_neighbors_nonempty)
    moreover have "1 \<le> length (Neighborhoods cache ! i)"
      using ok that(1) by (simp add: cache_ok_def)
    ultimately show ?thesis
      by (cases "included_neighbors srt db im i"; cases "Neighborhoods cache ! i")
         (simp_all add: neighborhood_def)
  qed
  moreover have "1 \<le> length (Neighborhoods cache ! i)" if "i < length (Employees db)" for i
    using ok that by (simp add: cache_ok_def)
  ultimately show ?thesis
    using ok by (auto simp add: cache_ok_def scored_def lrd_pass_def core_pass_def)
qed

lemma Lof_FindOutliers_spec:
  assumes srt: "sort_Slice_ok srt" and lof: "Neighbors lof = index_of srt db" "Lof_Db lof = db"
    and im: "length (Employees db) \<le> 8 * length (Mask im)"
    and ok: "cache_ok db cache" and p: "2 \<le> population db im"
  shows "Lof_FindOutliers F lof cache im outlierHandler h =
     Inr (scored F srt db im cache,
          visit outlierHandler (outliers F lof (scored F srt db im cache) im) h)"
proof -
  have 1: "computeCoreDistances lof cache im = Inr (core_pass srt db im cache)"
  proof (rule computeCoreDistances_spec[OF srt lof im])
    show "length (Neighborhoods cache) = length (Employees db)"
      "length (CoreDistance cache) = length (Employees db)"
      using ok by (simp_all add: cache_ok_def)
    show "1 \<le> length (Neighborhoods cache ! i) \<and> included_neighbors srt db im i \<noteq> []"
      if "i < length (Employees db)" "member_bit im i" for i
      using included_neighbors_nonempty[OF srt that p] ok that(1) by (simp add: cache_ok_def)
  qed
  have b1: "cache_bounds lof (core_pass srt db im cache) im"
    using srt lof(2) im ok by (rule core_pass_bounds)
  have 2: "computeLrds F lof (core_pass srt db im cache) im = Inr (scored F srt db im cache)"
    unfolding scored_def using lof(2) b1 by (rule computeLrds_spec)
  have b2: "cache_bounds lof (scored F srt db im cache) im"
    unfolding scored_def using lof(2) b1 by (rule lrd_pass_bounds)
  show ?thesis
    by (simp add: Lof_FindOutliers_def 1 2 computeLofs_spec[OF b2])
qed

section \<open>The scorer does not panic\<close>

lemma NewThreadCache_ok:
  "1 \<le> K lof \<Longrightarrow> Lof_Db lof = db \<Longrightarrow> cache_ok db (NewThreadCache F lof)"
  by (simp add: cache_ok_def NewThreadCache_def)

lemma NewKnn_index_of: "sort_Slice_ok srt \<Longrightarrow> NewKnn srt db = Inr (index_of srt db)"
  by (simp add: NewKnn_def precomputeDistances_spec index_of_def)

lemma scored_neighborhood:
  assumes "sort_Slice_ok srt" "cache_ok db cache" "i < length (Employees db)" "member_bit im i"
  shows "Neighborhoods (scored F srt db im cache) ! i = neighborhood srt db im cache i"
    and "set (neighborhood srt db im cache i)
           \<subseteq> {j. j < length (Employees db) \<and> j \<noteq> i \<and> member_bit im j}"
proof -
  show "Neighborhoods (scored F srt db im cache) ! i = neighborhood srt db im cache i"
    using assms(3,4) by (simp add: scored_def lrd_pass_def core_pass_def)
  show "set (neighborhood srt db im cache i)
           \<subseteq> {j. j < length (Employees db) \<and> j \<noteq> i \<and> member_bit im j}"
    using set_take_subset[of "length (Neighborhoods cache ! i)" "included_neighbors srt db im i"]
      set_neighbors_of[OF assms(1), of db i]
    by (auto simp add: neighborhood_def included_neighbors_def)
qed

text \<open>
  C7. Let the scorer be built on the index that \<^verbatim>\<open>NewKnn\<close> computes, the mask have a bit
  for every record, its \<^verbatim>\<open>Count\<close> be the number of records it includes and be at least 2,
  and the cache be one a worker can hold: three arrays of one place per record and no
  empty neighbour buffer, as \<^verbatim>\<open>NewThreadCache\<close> allocates it for \<open>K \<ge> 1\<close> (\<^verbatim>\<open>main\<close> has
  \<open>K = 20\<close>) and as every call of \<^verbatim>\<open>FindOutliers\<close> leaves it. Then \<^verbatim>\<open>Lof.FindOutliers\<close>
  returns, without a panic, whatever the handler and the arithmetic are: every included
  record finds at least one included neighbour, and all its neighbours are records other
  than itself that the mask includes.
\<close>

theorem Lof_FindOutliers_no_panic:
  assumes "sort_Slice_ok srt"
    and "lof = NewLof db (index_of srt db) k threshold"
    and "length (Employees db) \<le> 8 * length (Mask im)"
    and "cache_ok db cache"
    and "unat (Count im) = population db im"
    and "2 \<le> unat (Count im)"
  shows "Lof_FindOutliers F lof cache im outlierHandler h =
       Inr (scored F srt db im cache,
            visit outlierHandler (outliers F lof (scored F srt db im cache) im) h)
     \<and> cache_ok db (scored F srt db im cache)
     \<and> (\<forall>i < length (Employees db). member_bit im i \<longrightarrow>
          1 \<le> length (Neighborhoods (scored F srt db im cache) ! i)
          \<and> set (Neighborhoods (scored F srt db im cache) ! i)
               \<subseteq> {j. j < length (Employees db) \<and> j \<noteq> i \<and> member_bit im j})
     \<and> NewKnn srt db = Inr (index_of srt db)
     \<and> (1 \<le> k \<longrightarrow> cache_ok db (NewThreadCache F lof))"
proof -
  have p: "2 \<le> population db im" using assms(5,6) by simp
  have l: "Neighbors lof = index_of srt db" "Lof_Db lof = db" "K lof = k"
    using assms(2) by (simp_all add: NewLof_def)
  have 1: "Lof_FindOutliers F lof cache im outlierHandler h =
       Inr (scored F srt db im cache,
            visit outlierHandler (outliers F lof (scored F srt db im cache) im) h)"
    using assms(1) l(1,2) assms(3,4) p by (rule Lof_FindOutliers_spec)
  have 2: "cache_ok db (scored F srt db im cache)"
    using assms(1,4) p by (rule scored_ok)
  have 3: "1 \<le> length (Neighborhoods (scored F srt db im cache) ! i)
          \<and> set (Neighborhoods (scored F srt db im cache) ! i)
               \<subseteq> {j. j < length (Employees db) \<and> j \<noteq> i \<and> member_bit im j}"
    if "i < length (Employees db)" "member_bit im i" for i
  proof -
    have "Neighborhoods (scored F srt db im cache) ! i
        \<in> set (Neighborhoods (scored F srt db im cache))"
      using 2 that(1) by (simp add: cache_ok_def)
    then have "1 \<le> length (Neighborhoods (scored F srt db im cache) ! i)"
      using 2 unfolding cache_ok_def by blast
    then show ?thesis
      using scored_neighborhood(1)[OF assms(1,4) that, of F]
        scored_neighborhood(2)[OF assms(1,4) that] by simp
  qed
  have 4: "NewKnn srt db = Inr (index_of srt db)"
    using assms(1) by (rule NewKnn_index_of)
  have 5: "1 \<le> k \<longrightarrow> cache_ok db (NewThreadCache F lof)"
    using NewThreadCache_ok[of lof db F] l by simp
  show ?thesis using 1 2 3 4 5 by blast
qed

theorem Lof_FindOutliers_no_panic_witness:
  "Lof_FindOutliers exact (lof_four (3 / 2)) (NewThreadCache exact (lof_four (3 / 2))) im_four
     collect_all [] = Inr (cache_four, [])
   \<and> NewKnn stable_sort db_four = Inr (index_of stable_sort db_four)"
proof -
  let ?lof = "lof_four (3 / 2)"
  let ?cache = "NewThreadCache exact ?lof"
  have a: "?lof = NewLof db_four (index_of stable_sort db_four) 2 (3 / 2)"
    by (simp add: lof_four_def)
  have b: "length (Employees db_four) \<le> 8 * length (Mask im_four)"
    by (simp add: db_four_def im_four_def)
  have c: "cache_ok db_four ?cache"
    by (rule NewThreadCache_ok) (simp_all add: lof_four_def NewLof_def)
  have d: "unat (Count im_four) = population db_four im_four"
    by code_simp
  have e: "2 \<le> unat (Count im_four)"
    by (simp add: im_four_def)
  have s: "scored exact stable_sort db_four im_four ?cache = cache_four"
    by code_simp
  have o: "outliers exact ?lof cache_four im_four = []"
    by code_simp
  show ?thesis
    using Lof_FindOutliers_no_panic[OF stable_sort_ok a b c d e, of exact collect_all "[]"]
    unfolding s o by simp
qed

section \<open>A cache used for two masks\<close>

text \<open>
  C2. Claim: on a mask \<open>m2\<close>, \<^verbatim>\<open>Lof.FindOutliers\<close> reports the same outliers with a cache
  that was used for another mask \<open>m1\<close> before as with a fresh cache.

  The first pass shortens \<^verbatim>\<open>Neighborhoods[i]\<close> to the neighbours found
  (\<^verbatim>\<open>cache.Neighborhoods[i][:numNeighbors]\<close>) and nothing restores its length, so on the
  next mask \<^verbatim>\<open>KNearest\<close> is given the shortened buffer. With the four records of
  \<open>db_four\<close>, \<open>K = 2\<close> and threshold 1.5: on the mask of the last two records each of them
  has one neighbour, and the cache keeps buffers of length 1 for them. On the mask of all
  four records that cache reports records 0 and 1 with score 2.5, while a fresh cache
  reports no outlier (every score is 1). The distances from any record of \<open>db_four\<close> are
  pairwise different, so the index does not depend on the sort.
\<close>

theorem Lof_FindOutliers_reused_cache:
  "NewKnn stable_sort db_four = Inr (Neighbors (lof_four (3 / 2)))
   \<and> Lof_FindOutliers exact (lof_four (3 / 2)) (NewThreadCache exact (lof_four (3 / 2)))
     im_four_23 collect_all [] = Inr (cache_four_23, [])
   \<and> Lof_FindOutliers exact (lof_four (3 / 2)) cache_four_23 im_four collect_all []
     = Inr (cache_four_reused, [(0, 5 / 2), (1, 5 / 2)])
   \<and> Lof_FindOutliers exact (lof_four (3 / 2)) (NewThreadCache exact (lof_four (3 / 2)))
     im_four collect_all [] = Inr (cache_four, [])"
  by code_simp

section \<open>The formulas of the scorer\<close>








end
